theory Spec2Isabelle
  imports Main "HOL-Library.AList"
begin

section \<open>The faucet request queue (kovan-faucets, request\_queue.ts)\<close>

text \<open>
  \<^verbatim>\<open>RequestQueue\<close> keeps the recipient addresses in a JavaScript array:
  \<^verbatim>\<open>push\<close> appends at the tail. The timer handle and the web3 handle play no part in
  \<^verbatim>\<open>add\<close>, \<^verbatim>\<open>size\<close> and \<^verbatim>\<open>isFull\<close>.
\<close>

definition MAX_QUEUE_SIZE :: nat where
  "MAX_QUEUE_SIZE = 500"

definition DEFAULT_QUEUE_INTERVAL_MS :: nat where
  "DEFAULT_QUEUE_INTERVAL_MS = 1000"

record request_queue =
  queueIntervalMs :: nat
  queue :: "string list"

definition RequestQueue :: request_queue where
  "RequestQueue = \<lparr> queueIntervalMs = DEFAULT_QUEUE_INTERVAL_MS, queue = [] \<rparr>"

definition size_queue :: "request_queue \<Rightarrow> nat" where
  "size_queue q = length (queue q)"

definition isFull :: "request_queue \<Rightarrow> bool" where
  "isFull q \<longleftrightarrow> size_queue q \<ge> MAX_QUEUE_SIZE"

definition add :: "string \<Rightarrow> request_queue \<Rightarrow> bool \<times> request_queue" where
  "add recipientAddress q =
     (if isFull q then (False, q)
      else (True, q\<lparr>queue := queue q @ [recipientAddress]\<rparr>))"


section \<open>Errors and JavaScript objects used as dictionaries\<close>

text \<open>
  The errors that can leave a method of \<^verbatim>\<open>ContractWrapper\<close>: the two the class throws
  itself, the \<^verbatim>\<open>TypeError\<close> of the JavaScript runtime (a method called on
  \<^verbatim>\<open>undefined\<close>, a call of something that is not a function), and whatever a
  collaborator (the node, the block streamer, the decoder, \<^verbatim>\<open>getFilter\<close>) throws,
  identified by its message.
\<close>

datatype error =
    SubscriptionNotFound
  | NoAbiDecoder
  | TypeError
  | Thrown string

text \<open>
  \<^verbatim>\<open>_filters\<close> and \<^verbatim>\<open>_filterCallbacks\<close> are plain objects created by \<^verbatim>\<open>{}\<close>. Their
  own properties are an association list in enumeration order, which for keys that are
  not array indices is the order of insertion: assignment to an existing key keeps its
  place, assignment to a new key appends (\<^const>\<open>AList.update\<close>), and \<^verbatim>\<open>delete\<close>
  removes the key (\<^const>\<open>AList.delete\<close>).

  A property read \<^verbatim>\<open>obj[key]\<close> also sees the members every plain object inherits from
  \<^verbatim>\<open>Object.prototype\<close>; \<^verbatim>\<open>_.keys\<close>, \<^verbatim>\<open>_.forEach\<close> and \<^verbatim>\<open>_.isEmpty\<close> see own
  properties only.
\<close>

type_synonym 'v js_object = "(string \<times> 'v) list"

definition object_prototype_names :: "string list" where
  "object_prototype_names =
     [''constructor'', ''hasOwnProperty'', ''isPrototypeOf'', ''propertyIsEnumerable'',
      ''toLocaleString'', ''toString'', ''valueOf'', ''__proto__'',
      ''__defineGetter__'', ''__defineSetter__'', ''__lookupGetter__'', ''__lookupSetter__'']"

datatype 'v js_property = Own 'v | Inherited | Undefined

definition js_get :: "'v js_object \<Rightarrow> string \<Rightarrow> 'v js_property" where
  "js_get obj k =
     (case map_of obj k of
        Some v \<Rightarrow> Own v
      | None \<Rightarrow> if k \<in> set object_prototype_names then Inherited else Undefined)"

text \<open>
  A call of the member of \<^verbatim>\<open>Object.prototype\<close> named \<open>k\<close>, as the two call sites
  of the class would make it: the error it throws, if it throws. Called as a method of
  a plain object with \<^verbatim>\<open>(null, logEvent)\<close>, \<^verbatim>\<open>__defineGetter__\<close> and
  \<^verbatim>\<open>__defineSetter__\<close> reject the second argument and \<^verbatim>\<open>__proto__\<close> is not a function;
  the others return. Called as a plain function in strict code (no receiver) with
  \<^verbatim>\<open>(err, undefined)\<close>, \<^verbatim>\<open>err\<close> an \<^verbatim>\<open>Error\<close> object, \<^verbatim>\<open>Object\<close> and \<^verbatim>\<open>toString\<close>
  return and the others throw. Neither call reaches a subscriber.
\<close>

definition inherited_call :: "bool \<Rightarrow> string \<Rightarrow> error option" where
  "inherited_call receiver k =
     (if receiver then
        (if k \<in> {''__defineGetter__'', ''__defineSetter__'', ''__proto__''}
         then Some TypeError else None)
      else
        (if k \<in> {''constructor'', ''toString''} then None else Some TypeError))"

definition js_keys :: "'v js_object \<Rightarrow> string list" where
  "js_keys obj = map fst obj"

definition js_isEmpty :: "'v js_object \<Rightarrow> bool" where
  "js_isEmpty obj \<longleftrightarrow> obj = []"

text \<open>
  Modelled from the spec: \<^verbatim>\<open>filterUtils.generateUUID\<close> is not among the sources. The
  spec calls its result a unique opaque string; the operations below take the generated
  token as an argument. A UUID has 36 characters, so it is neither an array index nor
  the name of a member of \<^verbatim>\<open>Object.prototype\<close>.
\<close>

definition is_uuid :: "string \<Rightarrow> bool" where
  "is_uuid t \<longleftrightarrow> length t = 36"


section \<open>The state of a ContractWrapper\<close>

text \<open>
  What \<^verbatim>\<open>AbiDecoder.tryToDecodeLogOrNoop\<close> returns: the log with its decoded arguments,
  or the log itself when it does not know the event.
\<close>

datatype ('log, 'args) decoded_or_raw =
    RawLog 'log
  | LogWithDecodedArgs 'log 'args

datatype ('log, 'args) decoded_log_event =
  DecodedLogEvent (eventLog: "('log, 'args) decoded_or_raw") (isRemoved: bool)

text \<open>
  A subscriber callback is code of the caller. Called, it can call back into the
  wrapper (spec 5 has \<^verbatim>\<open>unsubscribe\<close> and \<^verbatim>\<open>unsubscribeAll\<close> called from within a
  callback), and it returns or throws. A callback is given by the calls it makes, in
  order, and the error it throws after them, if any; a call of the wrapper that throws
  ends the callback with that error. Every invocation is recorded: which subscription,
  which callback, the two arguments.
\<close>

datatype api_call = CallUnsubscribe string | CallUnsubscribeAll

datatype callback = Callback (callbackName: nat) (calls: "api_call list") (throws: "error option")

datatype ('cb, 'log, 'args) invocation =
  Invocation string 'cb "error option" "('log, 'args) decoded_log_event option"

text \<open>
  \<^verbatim>\<open>BlockAndLogStreamer\<close> belongs to the library ethereumjs-blockstream. Of the object
  the wrapper sees the log filters it added and the two subscriber tables; a subscriber
  of the wrapper is \<^verbatim>\<open>this._onLogStateChanged.bind(this, isRemoved)\<close>, represented by the
  value of \<^verbatim>\<open>isRemoved\<close> at the time of \<^verbatim>\<open>bind\<close>.
\<close>

record block_and_log_streamer =
  logFilterCount :: nat
  nextSubscriberToken :: nat
  onLogAddedSubscribers :: "(nat \<times> bool) list"
  onLogRemovedSubscribers :: "(nat \<times> bool) list"

definition BlockAndLogStreamer :: block_and_log_streamer where
  "BlockAndLogStreamer =
     \<lparr> logFilterCount = 0, nextSubscriberToken = 0,
       onLogAddedSubscribers = [], onLogRemovedSubscribers = [] \<rparr>"

definition addLogFilter :: "block_and_log_streamer \<Rightarrow> block_and_log_streamer" where
  "addLogFilter s = s\<lparr>logFilterCount := Suc (logFilterCount s)\<rparr>"

definition subscribeToOnLogAdded ::
  "bool \<Rightarrow> block_and_log_streamer \<Rightarrow> nat \<times> block_and_log_streamer" where
  "subscribeToOnLogAdded handler s =
     (nextSubscriberToken s,
      s\<lparr>onLogAddedSubscribers := onLogAddedSubscribers s @ [(nextSubscriberToken s, handler)],
        nextSubscriberToken := Suc (nextSubscriberToken s)\<rparr>)"

definition subscribeToOnLogRemoved ::
  "bool \<Rightarrow> block_and_log_streamer \<Rightarrow> nat \<times> block_and_log_streamer" where
  "subscribeToOnLogRemoved handler s =
     (nextSubscriberToken s,
      s\<lparr>onLogRemovedSubscribers := onLogRemovedSubscribers s @ [(nextSubscriberToken s, handler)],
        nextSubscriberToken := Suc (nextSubscriberToken s)\<rparr>)"

definition unsubscribeFromOnLogAdded ::
  "nat option \<Rightarrow> block_and_log_streamer \<Rightarrow> block_and_log_streamer" where
  "unsubscribeFromOnLogAdded token s =
     (case token of
        None \<Rightarrow> s
      | Some t \<Rightarrow> s\<lparr>onLogAddedSubscribers := AList.delete t (onLogAddedSubscribers s)\<rparr>)"

definition unsubscribeFromOnLogRemoved ::
  "nat option \<Rightarrow> block_and_log_streamer \<Rightarrow> block_and_log_streamer" where
  "unsubscribeFromOnLogRemoved token s =
     (case token of
        None \<Rightarrow> s
      | Some t \<Rightarrow> s\<lparr>onLogRemovedSubscribers := AList.delete t (onLogRemovedSubscribers s)\<rparr>)"

text \<open>
  The fields of the class, then the part of the world its methods act on: the interval
  timers of the runtime that are still armed, the next timer handle, and the record of
  callback invocations.
\<close>

record ('filter, 'cb, 'log, 'args) contract_wrapper =
  networkId :: int
  abiDecoder :: "('log \<Rightarrow> error + ('log, 'args) decoded_or_raw) option"
  blockAndLogStreamer :: "block_and_log_streamer option"
  blockAndLogStreamInterval :: "nat option"
  filters :: "'filter js_object"
  filterCallbacks :: "'cb js_object"
  onLogAddedSubscriptionToken :: "nat option"
  onLogRemovedSubscriptionToken :: "nat option"
  activeIntervals :: "nat list"
  nextIntervalId :: nat
  invocations :: "('cb, 'log, 'args) invocation list"

definition ContractWrapper ::
  "int \<Rightarrow> ('log \<Rightarrow> error + ('log, 'args) decoded_or_raw) option
     \<Rightarrow> ('filter, 'cb, 'log, 'args) contract_wrapper" where
  "ContractWrapper nid decoder =
     \<lparr> networkId = nid, abiDecoder = decoder,
       blockAndLogStreamer = None, blockAndLogStreamInterval = None,
       filters = [], filterCallbacks = [],
       onLogAddedSubscriptionToken = None, onLogRemovedSubscriptionToken = None,
       activeIntervals = [], nextIntervalId = 0, invocations = [] \<rparr>"


section \<open>Starting and stopping the block and log stream\<close>

text \<open>
  Modelled from the spec: \<^verbatim>\<open>intervalUtils.setAsyncExcludingInterval\<close> and
  \<^verbatim>\<open>intervalUtils.clearAsyncExcludingInterval\<close> are not among the sources. The spec has
  a poll timer that subscribe starts and that the removal of the last subscription
  stops: setting arms a new interval timer and returns its handle, clearing disarms
  the timer of the handle (and does nothing for \<^verbatim>\<open>undefined\<close>).
\<close>

definition setAsyncExcludingInterval ::
  "('filter, 'cb, 'log, 'args) contract_wrapper
     \<Rightarrow> nat \<times> ('filter, 'cb, 'log, 'args) contract_wrapper" where
  "setAsyncExcludingInterval w =
     (nextIntervalId w,
      w\<lparr>activeIntervals := activeIntervals w @ [nextIntervalId w],
        nextIntervalId := Suc (nextIntervalId w)\<rparr>)"

definition clearAsyncExcludingInterval ::
  "nat option \<Rightarrow> ('filter, 'cb, 'log, 'args) contract_wrapper
     \<Rightarrow> ('filter, 'cb, 'log, 'args) contract_wrapper" where
  "clearAsyncExcludingInterval handle w =
     (case handle of
        None \<Rightarrow> w
      | Some i \<Rightarrow> w\<lparr>activeIntervals := removeAll i (activeIntervals w)\<rparr>)"

definition startBlockAndLogStream ::
  "('filter, 'cb, 'log, 'args) contract_wrapper
     \<Rightarrow> ('filter, 'cb, 'log, 'args) contract_wrapper" where
  "startBlockAndLogStream w =
     (let s0 = addLogFilter BlockAndLogStreamer;
          (i, w1) = setAsyncExcludingInterval w;
          (addedToken, s1) = subscribeToOnLogAdded False s0;
          (removedToken, s2) = subscribeToOnLogRemoved True s1
      in w1\<lparr>blockAndLogStreamer := Some s2,
            blockAndLogStreamInterval := Some i,
            onLogAddedSubscriptionToken := Some addedToken,
            onLogRemovedSubscriptionToken := Some removedToken\<rparr>)"

text \<open>
  \<^verbatim>\<open>_stopBlockAndLogStream\<close> calls a method of \<^verbatim>\<open>this._blockAndLogStreamer\<close> first: with
  no streamer that is a \<^verbatim>\<open>TypeError\<close>, thrown before anything is changed. Otherwise the
  two subscribers are removed from the streamer, the timer is cleared and the property
  that holds the streamer is deleted.
\<close>

definition stopBlockAndLogStream ::
  "('filter, 'cb, 'log, 'args) contract_wrapper
     \<Rightarrow> error option \<times> ('filter, 'cb, 'log, 'args) contract_wrapper" where
  "stopBlockAndLogStream w =
     (case blockAndLogStreamer w of
        None \<Rightarrow> (Some TypeError, w)
      | Some s \<Rightarrow>
          (let s1 = unsubscribeFromOnLogAdded (onLogAddedSubscriptionToken w) s;
               s2 = unsubscribeFromOnLogRemoved (onLogRemovedSubscriptionToken w) s1;
               w1 = w\<lparr>blockAndLogStreamer := Some s2\<rparr>;
               w2 = clearAsyncExcludingInterval (blockAndLogStreamInterval w1) w1
           in (None, w2\<lparr>blockAndLogStreamer := None\<rparr>)))"


section \<open>Subscribing and unsubscribing\<close>

text \<open>
  The end of \<^verbatim>\<open>_unsubscribe\<close> (the two \<^verbatim>\<open>delete\<close> and the test for the empty
  registry). A throw of \<^verbatim>\<open>_stopBlockAndLogStream\<close> leaves the two deletions done.
\<close>

definition delete_and_stop ::
  "string \<Rightarrow> ('filter, 'cb, 'log, 'args) contract_wrapper
     \<Rightarrow> error option \<times> ('filter, 'cb, 'log, 'args) contract_wrapper" where
  "delete_and_stop filterToken w =
     (let w2 = w\<lparr>filters := AList.delete filterToken (filters w)\<rparr>;
          w3 = w2\<lparr>filterCallbacks := AList.delete filterToken (filterCallbacks w2)\<rparr>
      in if js_isEmpty (filters w3) then stopBlockAndLogStream w3 else (None, w3))"

text \<open>
  \<^verbatim>\<open>_unsubscribe(filterToken)\<close>, the call without \<^verbatim>\<open>err\<close> that the public
  \<^verbatim>\<open>unsubscribe\<close> of the subclasses and \<^verbatim>\<open>unsubscribeAll\<close> make; it calls no callback.
  It comes first because a callback can make this call. The guard reads
  \<^verbatim>\<open>this._filters[filterToken]\<close>, which is \<^verbatim>\<open>undefined\<close> only when the token is neither
  an own key nor the name of an inherited member.
\<close>

definition unsubscribe_without_err ::
  "string \<Rightarrow> ('filter, 'cb, 'log, 'args) contract_wrapper
     \<Rightarrow> error option \<times> ('filter, 'cb, 'log, 'args) contract_wrapper" where
  "unsubscribe_without_err filterToken w =
     (if js_get (filters w) filterToken = Undefined then (Some SubscriptionNotFound, w)
      else delete_and_stop filterToken w)"

text \<open>
  The loop of \<^verbatim>\<open>unsubscribeAll\<close>,
  \<^verbatim>\<open>_.each(filterTokens, filterToken => this._unsubscribe(filterToken))\<close>: a throw ends it.
\<close>

fun unsubscribe_each_without_err ::
  "string list \<Rightarrow> ('filter, 'cb, 'log, 'args) contract_wrapper
     \<Rightarrow> error option \<times> ('filter, 'cb, 'log, 'args) contract_wrapper" where
  "unsubscribe_each_without_err [] w = (None, w)"
| "unsubscribe_each_without_err (filterToken # rest) w =
     (case unsubscribe_without_err filterToken w of
        (Some e, w') \<Rightarrow> (Some e, w')
      | (None, w') \<Rightarrow> unsubscribe_each_without_err rest w')"

definition unsubscribeAll ::
  "('filter, 'cb, 'log, 'args) contract_wrapper
     \<Rightarrow> error option \<times> ('filter, 'cb, 'log, 'args) contract_wrapper" where
  "unsubscribeAll w = unsubscribe_each_without_err (js_keys (filterCallbacks w)) w"

text \<open>
  \<^verbatim>\<open>_subscribe\<close>. \<^verbatim>\<open>filterUtils.getFilter\<close> is not among the sources; it runs first, and
  its result (the filter, or what it throws) is an argument. The token is the result of
  \<^verbatim>\<open>generateUUID\<close>.
\<close>

definition subscribe ::
  "error + 'filter \<Rightarrow> 'cb \<Rightarrow> string \<Rightarrow> ('filter, 'cb, 'log, 'args) contract_wrapper
     \<Rightarrow> (error + string) \<times> ('filter, 'cb, 'log, 'args) contract_wrapper" where
  "subscribe getFilter callback filterToken w =
     (case getFilter of
        Inl e \<Rightarrow> (Inl e, w)
      | Inr flt \<Rightarrow>
          (let w1 = (if blockAndLogStreamer w = None then startBlockAndLogStream w else w);
               w2 = w1\<lparr>filters := AList.update filterToken flt (filters w1)\<rparr>;
               w3 = w2\<lparr>filterCallbacks := AList.update filterToken callback (filterCallbacks w2)\<rparr>
           in (Inr filterToken, w3)))"


section \<open>Calling a callback\<close>

text \<open>
  What the body of a callback does to the wrapper: its calls in order, until one
  throws, and then its own throw, if it has one.
\<close>

fun perform ::
  "api_call \<Rightarrow> ('filter, 'cb, 'log, 'args) contract_wrapper
     \<Rightarrow> error option \<times> ('filter, 'cb, 'log, 'args) contract_wrapper" where
  "perform (CallUnsubscribe filterToken) w = unsubscribe_without_err filterToken w"
| "perform CallUnsubscribeAll w = unsubscribeAll w"

fun perform_all ::
  "api_call list \<Rightarrow> ('filter, 'cb, 'log, 'args) contract_wrapper
     \<Rightarrow> error option \<times> ('filter, 'cb, 'log, 'args) contract_wrapper" where
  "perform_all [] w = (None, w)"
| "perform_all (c # cs) w =
     (case perform c w of
        (Some e, w') \<Rightarrow> (Some e, w')
      | (None, w') \<Rightarrow> perform_all cs w')"

definition invoke ::
  "callback \<Rightarrow> ('filter, 'cb, 'log, 'args) contract_wrapper
     \<Rightarrow> error option \<times> ('filter, 'cb, 'log, 'args) contract_wrapper" where
  "invoke callback w =
     (case perform_all (calls callback) w of
        (Some e, w') \<Rightarrow> (Some e, w')
      | (None, w') \<Rightarrow> (throws callback, w'))"

text \<open>
  \<^verbatim>\<open>_unsubscribe(filterToken, err?)\<close>. With \<^verbatim>\<open>err\<close> the callback is called between the
  guard and the two deletions, and a throw of the callback leaves \<^verbatim>\<open>_unsubscribe\<close>
  before the deletions; the source passes \<^verbatim>\<open>err\<close> only with a token taken from the
  keys of \<^verbatim>\<open>_filterCallbacks\<close>. A callback that is not an own property is
  \<^verbatim>\<open>undefined\<close>, whose call is a \<^verbatim>\<open>TypeError\<close>, or an inherited member called without
  receiver.
\<close>

definition unsubscribe ::
  "string \<Rightarrow> error option \<Rightarrow> ('filter, callback, 'log, 'args) contract_wrapper
     \<Rightarrow> error option \<times> ('filter, callback, 'log, 'args) contract_wrapper" where
  "unsubscribe filterToken err w =
     (case err of
        None \<Rightarrow> unsubscribe_without_err filterToken w
      | Some e \<Rightarrow>
          (if js_get (filters w) filterToken = Undefined then (Some SubscriptionNotFound, w)
           else
             (case js_get (filterCallbacks w) filterToken of
                Own callback \<Rightarrow>
                  (case invoke callback
                          (w\<lparr>invocations :=
                               invocations w @ [Invocation filterToken callback (Some e) None]\<rparr>) of
                     (Some thrown, w1) \<Rightarrow> (Some thrown, w1)
                   | (None, w1) \<Rightarrow> delete_and_stop filterToken w1)
              | Inherited \<Rightarrow>
                  (case inherited_call False filterToken of
                     None \<Rightarrow> delete_and_stop filterToken w
                   | Some thrown \<Rightarrow> (Some thrown, w))
              | Undefined \<Rightarrow> (Some TypeError, w))))"

text \<open>
  The loop of the \<^verbatim>\<open>catch\<close> block,
  \<^verbatim>\<open>_.each(filterTokens, filterToken => this._unsubscribe(filterToken, err))\<close>: a throw
  ends it.
\<close>

fun unsubscribe_each ::
  "string list \<Rightarrow> error \<Rightarrow> ('filter, callback, 'log, 'args) contract_wrapper
     \<Rightarrow> error option \<times> ('filter, callback, 'log, 'args) contract_wrapper" where
  "unsubscribe_each [] err w = (None, w)"
| "unsubscribe_each (filterToken # rest) err w =
     (case unsubscribe filterToken (Some err) w of
        (Some e, w') \<Rightarrow> (Some e, w')
      | (None, w') \<Rightarrow> unsubscribe_each rest err w')"


section \<open>Dispatching a log\<close>

definition tryToDecodeLogOrNoop ::
  "('filter, 'cb, 'log, 'args) contract_wrapper \<Rightarrow> 'log
     \<Rightarrow> error + ('log, 'args) decoded_or_raw" where
  "tryToDecodeLogOrNoop w l =
     (case abiDecoder w of
        None \<Rightarrow> Inl NoAbiDecoder
      | Some decoder \<Rightarrow> decoder l)"

text \<open>
  The body of \<^verbatim>\<open>_onLogStateChanged\<close> is a \<^verbatim>\<open>_.forEach\<close> over \<^verbatim>\<open>_filters\<close>: lodash takes
  the own keys once and reads the value of each key when its turn comes.
  \<^verbatim>\<open>filterUtils.matchesFilter\<close> is not among the sources and is the argument
  \<open>matchesFilter\<close>. A throw of the decoder, of the callback, or of the call of a
  callback that is missing, ends the loop;
  \<^verbatim>\<open>this._filterCallbacks[filterToken](null, logEvent)\<close> is a method call, so an inherited
  member is called with the dictionary as receiver.

  Modelled from the spec: what \<^verbatim>\<open>matchesFilter\<close> does with the value of a key that a
  callback has removed in the meantime is not in the sources; spec 5 has the remaining
  matches of a removed subscription simply not dispatched, and the loop goes on.
\<close>

fun dispatch ::
  "('log \<Rightarrow> 'filter \<Rightarrow> bool) \<Rightarrow> bool \<Rightarrow> 'log \<Rightarrow> string list
     \<Rightarrow> ('filter, callback, 'log, 'args) contract_wrapper
     \<Rightarrow> error option \<times> ('filter, callback, 'log, 'args) contract_wrapper" where
  "dispatch matchesFilter removed l [] w = (None, w)"
| "dispatch matchesFilter removed l (filterToken # rest) w =
     (case js_get (filters w) filterToken of
        Own flt \<Rightarrow>
          (if matchesFilter l flt then
             (case tryToDecodeLogOrNoop w l of
                Inl e \<Rightarrow> (Some e, w)
              | Inr decodedLog \<Rightarrow>
                  (case js_get (filterCallbacks w) filterToken of
                     Own callback \<Rightarrow>
                       (case invoke callback
                               (w\<lparr>invocations := invocations w @
                                    [Invocation filterToken callback None
                                       (Some (DecodedLogEvent decodedLog removed))]\<rparr>) of
                          (Some thrown, w1) \<Rightarrow> (Some thrown, w1)
                        | (None, w1) \<Rightarrow> dispatch matchesFilter removed l rest w1)
                   | Inherited \<Rightarrow>
                       (case inherited_call True filterToken of
                          None \<Rightarrow> dispatch matchesFilter removed l rest w
                        | Some thrown \<Rightarrow> (Some thrown, w))
                   | Undefined \<Rightarrow> (Some TypeError, w)))
           else dispatch matchesFilter removed l rest w)
      | _ \<Rightarrow> dispatch matchesFilter removed l rest w)"

definition onLogStateChanged ::
  "('log \<Rightarrow> 'filter \<Rightarrow> bool) \<Rightarrow> bool \<Rightarrow> 'log
     \<Rightarrow> ('filter, callback, 'log, 'args) contract_wrapper
     \<Rightarrow> error option \<times> ('filter, callback, 'log, 'args) contract_wrapper" where
  "onLogStateChanged matchesFilter removed l w =
     dispatch matchesFilter removed l (js_keys (filters w)) w"


section \<open>The poll tick\<close>

text \<open>
  What one call of \<^verbatim>\<open>reconcileNewBlock\<close> does is decided by the library and the node:
  the logs it announces on its two streams, in order, and then whether it resolves or
  rejects (a fetch of a block or of logs has failed). An announcement is a log and the
  stream it is announced on.
\<close>

datatype 'log stream_event = LogAdded 'log | LogRemoved 'log

fun stream_log :: "'log stream_event \<Rightarrow> 'log" where
  "stream_log (LogAdded l) = l"
| "stream_log (LogRemoved l) = l"

fun from_removed_stream :: "'log stream_event \<Rightarrow> bool" where
  "from_removed_stream (LogAdded l) = False"
| "from_removed_stream (LogRemoved l) = True"

text \<open>
  Modelled from the spec: the code of \<^verbatim>\<open>BlockAndLogStreamer\<close> (ethereumjs-blockstream)
  is not among the sources. An announcement calls, one after the other, the subscribers
  of the stream; each of them is \<^verbatim>\<open>_onLogStateChanged\<close> bound to the flag that
  \<^verbatim>\<open>_startBlockAndLogStream\<close> gave it. Spec 4.5 and 7 have a tick fail on the head
  fetch, the per-block fetch or a fatal condition of the chain view, and a decode
  failure not fail the tick: what a subscriber throws is caught by the streamer, which
  keeps what the subscriber had done until then and goes on with the next subscriber.
\<close>

fun notify ::
  "('log \<Rightarrow> 'filter \<Rightarrow> bool) \<Rightarrow> (nat \<times> bool) list \<Rightarrow> 'log
     \<Rightarrow> ('filter, callback, 'log, 'args) contract_wrapper
     \<Rightarrow> ('filter, callback, 'log, 'args) contract_wrapper" where
  "notify matchesFilter [] l w = w"
| "notify matchesFilter ((token, removed) # subscribers) l w =
     notify matchesFilter subscribers l (snd (onLogStateChanged matchesFilter removed l w))"

text \<open>
  Modelled from the spec: the announcement of one log by the streamer, whose code is
  not among the sources. The subscribers are those that the stream of the log has in
  the streamer the wrapper holds at that moment; a wrapper whose stream a callback has
  stopped in the meantime holds no streamer, and nothing is called.
\<close>

definition announce ::
  "('log \<Rightarrow> 'filter \<Rightarrow> bool) \<Rightarrow> 'log stream_event
     \<Rightarrow> ('filter, callback, 'log, 'args) contract_wrapper
     \<Rightarrow> ('filter, callback, 'log, 'args) contract_wrapper" where
  "announce matchesFilter ev w =
     (case blockAndLogStreamer w of
        None \<Rightarrow> w
      | Some s \<Rightarrow>
          (case ev of
             LogAdded l \<Rightarrow> notify matchesFilter (onLogAddedSubscribers s) l w
           | LogRemoved l \<Rightarrow> notify matchesFilter (onLogRemovedSubscribers s) l w))"

text \<open>
  Modelled from the spec: the announcements of one reconciliation by the streamer,
  whose code is not among the sources, in order; after a subscriber has thrown the
  streamer goes on with the next log.
\<close>

fun announce_all ::
  "('log \<Rightarrow> 'filter \<Rightarrow> bool) \<Rightarrow> 'log stream_event list
     \<Rightarrow> ('filter, callback, 'log, 'args) contract_wrapper
     \<Rightarrow> ('filter, callback, 'log, 'args) contract_wrapper" where
  "announce_all matchesFilter [] w = w"
| "announce_all matchesFilter (ev # evs) w =
     announce_all matchesFilter evs (announce matchesFilter ev w)"

text \<open>
  Modelled from the spec: \<^verbatim>\<open>reconcileNewBlock\<close> of the streamer, whose code is not
  among the sources. It makes the announcements of the script and then resolves or
  rejects as the script says; what a subscriber has thrown is not among the reasons for
  which it rejects (spec 7: ledger I/O and reorg-window failures terminate the tick).
\<close>

definition reconcileNewBlock ::
  "('log \<Rightarrow> 'filter \<Rightarrow> bool) \<Rightarrow> 'log stream_event list \<times> error option
     \<Rightarrow> ('filter, callback, 'log, 'args) contract_wrapper
     \<Rightarrow> error option \<times> ('filter, callback, 'log, 'args) contract_wrapper" where
  "reconcileNewBlock matchesFilter script w =
     (snd script, announce_all matchesFilter (fst script) w)"

text \<open>The \<^verbatim>\<open>catch\<close> block of \<^verbatim>\<open>_reconcileBlockAsync\<close>.\<close>

definition on_tick_error ::
  "error \<Rightarrow> ('filter, callback, 'log, 'args) contract_wrapper
     \<Rightarrow> error option \<times> ('filter, callback, 'log, 'args) contract_wrapper" where
  "on_tick_error err w = unsubscribe_each (js_keys (filterCallbacks w)) err w"

text \<open>The block that \<^verbatim>\<open>getBlockAsync\<close> returns; the wrapper hands it on unread.\<close>

datatype block = Block (blockNumber: nat) (blockHash: string) (parentHash: string)

text \<open>
  \<^verbatim>\<open>_reconcileBlockAsync\<close> reads the state of the wrapper only after
  \<^verbatim>\<open>await getBlockAsync\<close>: the function is applied to the state the wrapper has when the
  fetch has come back, with the result of the fetch (\<open>latestBlock\<close>: the block, or
  what was thrown) and the script of the reconciliation.
\<close>

definition reconcileBlockAsync ::
  "('log \<Rightarrow> 'filter \<Rightarrow> bool) \<Rightarrow> error + block
     \<Rightarrow> 'log stream_event list \<times> error option
     \<Rightarrow> ('filter, callback, 'log, 'args) contract_wrapper
     \<Rightarrow> error option \<times> ('filter, callback, 'log, 'args) contract_wrapper" where
  "reconcileBlockAsync matchesFilter latestBlock script w =
     (case latestBlock of
        Inl err \<Rightarrow> on_tick_error err w
      | Inr block \<Rightarrow>
          (case blockAndLogStreamer w of
             None \<Rightarrow> (None, w)
           | Some s \<Rightarrow>
               (case reconcileNewBlock matchesFilter script w of
                  (Some err, w') \<Rightarrow> on_tick_error err w'
                | (None, w') \<Rightarrow> (None, w'))))"


section \<open>The public operations and the states they reach\<close>

text \<open>
  The operations a caller or the timer can perform on a wrapper: the public
  \<^verbatim>\<open>subscribe\<close> and \<^verbatim>\<open>unsubscribe\<close> of the subclasses (which call \<^verbatim>\<open>_subscribe\<close>
  and \<^verbatim>\<open>_unsubscribe\<close> without \<^verbatim>\<open>err\<close>), \<^verbatim>\<open>unsubscribeAll\<close>, and a poll tick with
  what the node and the streamer answer. \<open>run\<close> gives the state an operation
  leaves, whether it returns or throws.
\<close>

datatype ('filter, 'log) operation =
    Subscribe "error + 'filter" callback string
  | Unsubscribe string
  | UnsubscribeAll
  | Tick "error + block" "'log stream_event list \<times> error option"

fun run ::
  "('log \<Rightarrow> 'filter \<Rightarrow> bool) \<Rightarrow> ('filter, 'log) operation
     \<Rightarrow> ('filter, callback, 'log, 'args) contract_wrapper
     \<Rightarrow> ('filter, callback, 'log, 'args) contract_wrapper" where
  "run matchesFilter (Subscribe getFilter callback filterToken) w =
     snd (subscribe getFilter callback filterToken w)"
| "run matchesFilter (Unsubscribe filterToken) w = snd (unsubscribe filterToken None w)"
| "run matchesFilter UnsubscribeAll w = snd (unsubscribeAll w)"
| "run matchesFilter (Tick latestBlock script) w =
     snd (reconcileBlockAsync matchesFilter latestBlock script w)"

text \<open>The token of a subscription comes from \<^verbatim>\<open>generateUUID\<close>.\<close>

fun generated :: "('filter, 'log) operation \<Rightarrow> bool" where
  "generated (Subscribe getFilter callback filterToken) = is_uuid filterToken"
| "generated (Unsubscribe filterToken) = True"
| "generated UnsubscribeAll = True"
| "generated (Tick latestBlock script) = True"

inductive reachable ::
  "('log \<Rightarrow> 'filter \<Rightarrow> bool) \<Rightarrow> ('filter, callback, 'log, 'args) contract_wrapper \<Rightarrow> bool"
  for matchesFilter :: "'log \<Rightarrow> 'filter \<Rightarrow> bool" where
  reachable_new: "reachable matchesFilter (ContractWrapper nid decoder)"
| reachable_run:
    "reachable matchesFilter w \<Longrightarrow> generated op \<Longrightarrow> reachable matchesFilter (run matchesFilter op w)"

text \<open>
  The stream is running: the wrapper holds a streamer, and a poll timer is armed.
\<close>

definition streaming :: "('filter, 'cb, 'log, 'args) contract_wrapper \<Rightarrow> bool" where
  "streaming w \<longleftrightarrow> blockAndLogStreamer w \<noteq> None"

definition polling :: "('filter, 'cb, 'log, 'args) contract_wrapper \<Rightarrow> bool" where
  "polling w \<longleftrightarrow> activeIntervals w \<noteq> []"

text \<open>
  The invariant the operations keep: the two dictionaries have the same keys in the
  same order, no key twice; without subscription there is no streamer and no armed
  timer; with one there is a streamer whose two streams each have the one subscriber
  that \<^verbatim>\<open>_startBlockAndLogStream\<close> gave them, and exactly the timer of the stored handle
  is armed.
\<close>

definition registry_inv :: "('filter, 'cb, 'log, 'args) contract_wrapper \<Rightarrow> bool" where
  "registry_inv w \<longleftrightarrow>
     js_keys (filters w) = js_keys (filterCallbacks w) \<and>
     distinct (js_keys (filters w)) \<and>
     (case blockAndLogStreamer w of
        None \<Rightarrow> filters w = [] \<and> activeIntervals w = []
      | Some s \<Rightarrow>
          filters w \<noteq> [] \<and>
          map Some (activeIntervals w) = [blockAndLogStreamInterval w] \<and>
          map snd (onLogAddedSubscribers s) = [False] \<and>
          map snd (onLogRemovedSubscribers s) = [True])"

text \<open>
  A callback that returns normally without calling back into the wrapper, and a
  registry that holds only such callbacks.
\<close>

definition quiet :: "callback \<Rightarrow> bool" where
  "quiet callback \<longleftrightarrow> calls callback = [] \<and> throws callback = None"

definition well_behaved :: "('filter, callback, 'log, 'args) contract_wrapper \<Rightarrow> bool" where
  "well_behaved w \<longleftrightarrow> list_all (\<lambda>(filterToken, callback). quiet callback) (filterCallbacks w)"

text \<open>
  What a tick that fails with \<open>err\<close> tells the subscribers: one call per
  subscription, with the error and no event.
\<close>

definition error_invocations ::
  "error \<Rightarrow> 'cb js_object \<Rightarrow> ('cb, 'log, 'args) invocation list" where
  "error_invocations err callbacks =
     map (\<lambda>(filterToken, callback). Invocation filterToken callback (Some err) None) callbacks"

text \<open>
  What the dispatch of one log tells the subscribers when nothing throws: one call for
  each filter the log matches, in the order of the registry, to the callback stored
  under the token of the filter, with no error and the decoded log with the flag.
\<close>

definition matching_invocations ::
  "'cb js_object \<Rightarrow> ('log, 'args) decoded_or_raw \<Rightarrow> bool \<Rightarrow> 'filter js_object
     \<Rightarrow> ('cb, 'log, 'args) invocation list" where
  "matching_invocations callbacks decodedLog removed matching =
     concat (map (\<lambda>(filterToken, flt).
        case js_get callbacks filterToken of
          Own callback \<Rightarrow>
            [Invocation filterToken callback None (Some (DecodedLogEvent decodedLog removed))]
        | _ \<Rightarrow> []) matching)"

definition log_invocations ::
  "('log \<Rightarrow> 'filter \<Rightarrow> bool) \<Rightarrow> ('filter, 'cb, 'log, 'args) contract_wrapper
     \<Rightarrow> bool \<Rightarrow> 'log \<Rightarrow> ('cb, 'log, 'args) invocation list" where
  "log_invocations matchesFilter w removed l =
     (case tryToDecodeLogOrNoop w l of
        Inl e \<Rightarrow> []
      | Inr decodedLog \<Rightarrow>
          matching_invocations (filterCallbacks w) decodedLog removed
            (filter (\<lambda>(filterToken, flt). matchesFilter l flt) (filters w)))"

definition event_invocations ::
  "('log \<Rightarrow> 'filter \<Rightarrow> bool) \<Rightarrow> ('filter, 'cb, 'log, 'args) contract_wrapper
     \<Rightarrow> 'log stream_event \<Rightarrow> ('cb, 'log, 'args) invocation list" where
  "event_invocations matchesFilter w ev =
     log_invocations matchesFilter w (from_removed_stream ev) (stream_log ev)"

text \<open>The log matches one of the registered filters.\<close>

definition matched ::
  "('log \<Rightarrow> 'filter \<Rightarrow> bool) \<Rightarrow> ('filter, 'cb, 'log, 'args) contract_wrapper \<Rightarrow> 'log \<Rightarrow> bool" where
  "matched matchesFilter w l \<longleftrightarrow> list_ex (\<lambda>(filterToken, flt). matchesFilter l flt) (filters w)"

text \<open>
  The error with which the \<^verbatim>\<open>try\<close> block of a tick fails (the fetch of the head
  throws, or \<^verbatim>\<open>reconcileNewBlock\<close> rejects), and the state of the wrapper at that
  moment; \<open>None\<close> for a tick that does not fail.
\<close>

definition tick_failure ::
  "('log \<Rightarrow> 'filter \<Rightarrow> bool) \<Rightarrow> error + block
     \<Rightarrow> 'log stream_event list \<times> error option
     \<Rightarrow> ('filter, callback, 'log, 'args) contract_wrapper
     \<Rightarrow> (error \<times> ('filter, callback, 'log, 'args) contract_wrapper) option" where
  "tick_failure matchesFilter latestBlock script w =
     (case latestBlock of
        Inl err \<Rightarrow> Some (err, w)
      | Inr b \<Rightarrow>
          (case blockAndLogStreamer w of
             None \<Rightarrow> None
           | Some s \<Rightarrow>
               (case reconcileNewBlock matchesFilter script w of
                  (Some err, w1) \<Rightarrow> Some (err, w1)
                | (None, w1) \<Rightarrow> None)))"

text \<open>
  Two tokens as \<^verbatim>\<open>generateUUID\<close> makes them and callbacks for the worked examples:
  two that only return, one that throws, one that calls \<^verbatim>\<open>unsubscribeAll\<close>, and one
  that removes the subscription of the second token.
\<close>

abbreviation token_a :: string where
  "token_a \<equiv> ''123e4567-e89b-42d3-a456-426614174000''"

abbreviation token_b :: string where
  "token_b \<equiv> ''9b2f0c1e-77aa-4c56-8d10-0a1b2c3d4e5f''"

abbreviation callback_a :: callback where
  "callback_a \<equiv> Callback 7 [] None"

abbreviation callback_b :: callback where
  "callback_b \<equiv> Callback 8 [] None"

abbreviation throwing_callback :: callback where
  "throwing_callback \<equiv> Callback 9 [] (Some (Thrown ''callback failed''))"

abbreviation leaving_callback :: callback where
  "leaving_callback \<equiv> Callback 10 [CallUnsubscribeAll] None"



section \<open>Evaluating the operations on a given wrapper\<close>

lemmas run_defs =
  ContractWrapper_def subscribe_def unsubscribe_def unsubscribe_without_err_def
  delete_and_stop_def unsubscribeAll_def invoke_def
  startBlockAndLogStream_def stopBlockAndLogStream_def setAsyncExcludingInterval_def
  clearAsyncExcludingInterval_def BlockAndLogStreamer_def addLogFilter_def
  subscribeToOnLogAdded_def subscribeToOnLogRemoved_def unsubscribeFromOnLogAdded_def
  unsubscribeFromOnLogRemoved_def inherited_call_def js_get_def js_keys_def js_isEmpty_def
  object_prototype_names_def is_uuid_def reconcileBlockAsync_def reconcileNewBlock_def
  announce_def on_tick_error_def onLogStateChanged_def tryToDecodeLogOrNoop_def Let_def


section \<open>Removing subscriptions, and the invariant of the registry\<close>

lemma stop_result:
  "blockAndLogStreamer w = Some s \<Longrightarrow>
   stopBlockAndLogStream w =
     (None, (clearAsyncExcludingInterval (blockAndLogStreamInterval w) w)
        \<lparr>blockAndLogStreamer := None\<rparr>)"
  by (simp add: stopBlockAndLogStream_def Let_def clearAsyncExcludingInterval_def
      split: option.splits)

lemma js_get_head [simp]: "js_get ((t, v) # obj) t = Own v"
  by (simp add: js_get_def)

lemma unsubscribe_None [simp]: "unsubscribe t None w = unsubscribe_without_err t w"
  by (simp add: unsubscribe_def)

lemma delete_last:
  assumes "filters w = [(t, f)]" "filterCallbacks w = [(t, cb)]" "blockAndLogStreamer w = Some s"
  shows "delete_and_stop t w =
     (None, (clearAsyncExcludingInterval (blockAndLogStreamInterval w) w)
        \<lparr>blockAndLogStreamer := None, filters := [], filterCallbacks := []\<rparr>)"
  using assms
  by (simp add: delete_and_stop_def js_isEmpty_def stopBlockAndLogStream_def Let_def
          clearAsyncExcludingInterval_def split: option.splits)

lemma delete_earlier:
  assumes "filters w = (t, f) # fs" "filterCallbacks w = (t, cb) # ps"
    "t \<notin> fst ` set fs" "t \<notin> fst ` set ps" "fs \<noteq> []"
  shows "delete_and_stop t w = (None, w\<lparr>filters := fs, filterCallbacks := ps\<rparr>)"
  using assms
  by (simp add: delete_and_stop_def js_isEmpty_def Let_def)

lemma unsubscribe_head_last_quiet:
  assumes "filters w = [(t, f)]" "filterCallbacks w = [(t, cb)]" "blockAndLogStreamer w = Some s"
  shows "unsubscribe_without_err t w =
     (None, (clearAsyncExcludingInterval (blockAndLogStreamInterval w) w)
        \<lparr>blockAndLogStreamer := None, filters := [], filterCallbacks := []\<rparr>)"
  using assms delete_last [OF assms] by (simp add: unsubscribe_without_err_def)

lemma unsubscribe_head_more_quiet:
  assumes "filters w = (t, f) # fs" "filterCallbacks w = (t, cb) # ps"
    "t \<notin> fst ` set fs" "t \<notin> fst ` set ps" "fs \<noteq> []"
  shows "unsubscribe_without_err t w = (None, w\<lparr>filters := fs, filterCallbacks := ps\<rparr>)"
  using assms(1) delete_earlier [OF assms] by (simp add: unsubscribe_without_err_def)

lemma same_keys_Cons:
  assumes "js_keys fs0 = js_keys ((t, cb) # ps)" "distinct (js_keys fs0)"
  obtains f fs where "fs0 = (t, f) # fs" "js_keys fs = js_keys ps"
    "t \<notin> fst ` set fs" "t \<notin> fst ` set ps" "distinct (js_keys fs)"
proof (cases fs0)
  case Nil
  with assms show ?thesis by (simp add: js_keys_def)
next
  case (Cons a fs)
  obtain t' f where a: "a = (t', f)" by (cases a)
  from assms(1) Cons a have eq: "t' = t" "map fst fs = map fst ps" by (simp_all add: js_keys_def)
  have e: "fst ` set fs = fst ` set ps" using eq(2) by (metis set_map)
  from assms(2) Cons a eq(1) have d: "t \<notin> fst ` set fs" "distinct (js_keys fs)"
    by (simp_all add: js_keys_def)
  have h1: "fs0 = (t, f) # fs" using Cons a eq by simp
  have h2: "js_keys fs = js_keys ps" using eq by (simp add: js_keys_def)
  have h3: "t \<notin> fst ` set ps" using d(1) e by simp
  show ?thesis using h1 h2 d(1) h3 d(2) by (rule that)
qed

lemma unsubscribe_each_quiet:
  "js_keys (filters w) = js_keys (filterCallbacks w) \<Longrightarrow> distinct (js_keys (filters w)) \<Longrightarrow>
   filters w \<noteq> [] \<Longrightarrow> blockAndLogStreamer w = Some s \<Longrightarrow>
   unsubscribe_each_without_err (js_keys (filterCallbacks w)) w =
     (None, (clearAsyncExcludingInterval (blockAndLogStreamInterval w) w)
        \<lparr>blockAndLogStreamer := None, filters := [], filterCallbacks := []\<rparr>)"
proof (induction "filterCallbacks w" arbitrary: w)
  case Nil
  then show ?case by (simp add: js_keys_def)
next
  case (Cons p ps)
  obtain t cb where p: "p = (t, cb)" by (cases p)
  from Cons.hyps(2) p have cbs: "filterCallbacks w = (t, cb) # ps" by simp
  from Cons.prems(1,2) cbs obtain f fs where fs: "filters w = (t, f) # fs"
    "js_keys fs = js_keys ps" "t \<notin> fst ` set fs" "t \<notin> fst ` set ps" "distinct (js_keys fs)"
    by (metis same_keys_Cons)
  show ?case
  proof (cases ps)
    case Nil
    with fs have "fs = []" by (simp add: js_keys_def)
    with Nil cbs fs Cons.prems(4) show ?thesis
      by (simp add: js_keys_def unsubscribe_head_last_quiet)
  next
    case ps: (Cons q qs)
    define w3 where "w3 = w\<lparr>filters := fs, filterCallbacks := ps\<rparr>"
    from ps fs(2) have ne: "fs \<noteq> []" by (auto simp: js_keys_def)
    have step: "unsubscribe_without_err t w = (None, w3)"
      unfolding w3_def using fs(1) cbs fs(3,4) ne by (rule unsubscribe_head_more_quiet)
    have "unsubscribe_each_without_err (js_keys (filterCallbacks w3)) w3 =
     (None, (clearAsyncExcludingInterval (blockAndLogStreamInterval w3) w3)
        \<lparr>blockAndLogStreamer := None, filters := [], filterCallbacks := []\<rparr>)"
    proof (rule Cons.hyps(1))
      show "ps = filterCallbacks w3" by (simp add: w3_def)
      show "js_keys (filters w3) = js_keys (filterCallbacks w3)" using fs(2) by (simp add: w3_def)
      show "distinct (js_keys (filters w3))" using fs(5) by (simp add: w3_def)
      show "filters w3 \<noteq> []" using ne by (simp add: w3_def)
      show "blockAndLogStreamer w3 = Some s" using Cons.prems(4) by (simp add: w3_def)
    qed
    then show ?thesis
      using step cbs
      by (simp add: js_keys_def w3_def clearAsyncExcludingInterval_def split: option.splits)
  qed
qed

lemma inv_new: "registry_inv (ContractWrapper nid dec)"
  by (simp add: registry_inv_def ContractWrapper_def js_keys_def)

lemma inv_invocations [simp]: "registry_inv (w\<lparr>invocations := ivs\<rparr>) = registry_inv w"
  by (simp add: registry_inv_def split: option.splits)

lemma inv_cleared:
  assumes "registry_inv w" "blockAndLogStreamer w = Some s"
  shows "registry_inv ((clearAsyncExcludingInterval (blockAndLogStreamInterval w) w)
        \<lparr>blockAndLogStreamer := None, filters := [], filterCallbacks := []\<rparr>)"
  using assms
  by (auto simp add: registry_inv_def clearAsyncExcludingInterval_def js_keys_def
      split: option.splits)

lemma inv_empty:
  "registry_inv w \<Longrightarrow> blockAndLogStreamer w = None \<Longrightarrow>
   filters w = [] \<and> filterCallbacks w = [] \<and> activeIntervals w = []"
  by (auto simp add: registry_inv_def js_keys_def)

lemma inv_start:
  "filters w = [] \<Longrightarrow> filterCallbacks w = [] \<Longrightarrow> activeIntervals w = [] \<Longrightarrow>
   blockAndLogStreamer (startBlockAndLogStream w) \<noteq> None \<and>
   filters (startBlockAndLogStream w) = [] \<and> filterCallbacks (startBlockAndLogStream w) = [] \<and>
   map Some (activeIntervals (startBlockAndLogStream w)) = [blockAndLogStreamInterval (startBlockAndLogStream w)] \<and>
   map snd (onLogAddedSubscribers (the (blockAndLogStreamer (startBlockAndLogStream w)))) = [False] \<and>
   map snd (onLogRemovedSubscribers (the (blockAndLogStreamer (startBlockAndLogStream w)))) = [True]"
  by (simp add: startBlockAndLogStream_def setAsyncExcludingInterval_def
      subscribeToOnLogAdded_def subscribeToOnLogRemoved_def addLogFilter_def
      BlockAndLogStreamer_def js_keys_def Let_def)

lemma keys_update:
  "js_keys fs = js_keys cs \<Longrightarrow> js_keys (AList.update t f fs) = js_keys (AList.update t c cs)"
proof (induction fs arbitrary: cs)
  case Nil
  then show ?case by (simp add: js_keys_def)
next
  case (Cons a fs)
  then obtain b cs' where "cs = b # cs'" "fst a = fst b" "js_keys fs = js_keys cs'"
    by (cases cs) (auto simp: js_keys_def)
  with Cons.IH[of cs'] show ?case by (simp add: js_keys_def)
qed

lemma inv_subscribe: "registry_inv w \<Longrightarrow> registry_inv (snd (subscribe g cb t w))"
proof (cases g)
  case (Inl e)
  assume "registry_inv w"
  then show ?thesis using Inl by (simp add: subscribe_def)
next
  case (Inr flt)
  assume inv: "registry_inv w"
  show ?thesis
  proof (cases "blockAndLogStreamer w")
    case None
    with inv have e: "filters w = []" "filterCallbacks w = []" "activeIntervals w = []"
      using inv_empty by blast+
    from inv_start[OF e] show ?thesis
      using Inr None
      by (auto simp add: subscribe_def Let_def registry_inv_def js_keys_def)
  next
    case (Some s)
    with inv have k: "js_keys (filters w) = js_keys (filterCallbacks w)"
      and d: "distinct (map fst (filters w))" by (auto simp add: registry_inv_def js_keys_def)
    from keys_update[OF k] have "js_keys (AList.update t flt (filters w)) = js_keys (AList.update t cb (filterCallbacks w))" .
    moreover from d have "distinct (map fst (AList.update t flt (filters w)))" by (rule distinct_update)
    ultimately show ?thesis using Some inv Inr
      by (simp add: subscribe_def Let_def registry_inv_def js_keys_def split: option.splits)
  qed
qed

lemma inv_streamer:
  "registry_inv w \<Longrightarrow> filters w \<noteq> [] \<Longrightarrow> \<exists>s. blockAndLogStreamer w = Some s"
  by (cases "blockAndLogStreamer w") (auto simp add: registry_inv_def)

lemma inv_delete_and_stop:
  assumes inv: "registry_inv w"
  shows "registry_inv (snd (delete_and_stop t w))"
proof -
  define w3 where "w3 = w\<lparr>filters := AList.delete t (filters w),
      filterCallbacks := AList.delete t (filterCallbacks w)\<rparr>"
  from inv have k: "map fst (filters w) = map fst (filterCallbacks w)"
    and d: "distinct (map fst (filters w))" by (auto simp add: registry_inv_def js_keys_def)
  have k3: "js_keys (filters w3) = js_keys (filterCallbacks w3)"
    using k by (simp add: w3_def js_keys_def delete_keys)
  have d3: "distinct (js_keys (filters w3))"
    using d by (simp add: w3_def js_keys_def distinct_delete)
  show ?thesis
  proof (cases "filters w3 = []")
    case empty: True
    show ?thesis
    proof (cases "blockAndLogStreamer w")
      case None
      with inv have "filters w = []" "filterCallbacks w = []" using inv_empty by blast+
      then have "w3 = w" by (simp add: w3_def)
      with empty None inv show ?thesis
        by (simp add: delete_and_stop_def Let_def js_isEmpty_def stopBlockAndLogStream_def w3_def)
    next
      case (Some s)
      from empty k3 have "filterCallbacks w3 = []" by (simp add: js_keys_def)
      with empty have "(clearAsyncExcludingInterval (blockAndLogStreamInterval w) w3)
             \<lparr>blockAndLogStreamer := None\<rparr> =
         (clearAsyncExcludingInterval (blockAndLogStreamInterval w) w)
        \<lparr>blockAndLogStreamer := None, filters := [], filterCallbacks := []\<rparr>"
        by (simp add: w3_def clearAsyncExcludingInterval_def split: option.splits)
      moreover from Some have "blockAndLogStreamer w3 = Some s" by (simp add: w3_def)
      then have "stopBlockAndLogStream w3 =
          (None, (clearAsyncExcludingInterval (blockAndLogStreamInterval w3) w3)
             \<lparr>blockAndLogStreamer := None\<rparr>)"
        by (rule stop_result)
      moreover have "delete_and_stop t w = stopBlockAndLogStream w3"
        using empty by (simp add: delete_and_stop_def Let_def js_isEmpty_def w3_def)
      ultimately show ?thesis using inv_cleared[OF inv Some]
        by (simp add: w3_def)
    qed
  next
    case nonempty: False
    then have "filters w \<noteq> []" by (auto simp: w3_def)
    with inv obtain s where s: "blockAndLogStreamer w = Some s" using inv_streamer by blast
    have "registry_inv w3"
      using k3 d3 nonempty s inv
      by (simp add: registry_inv_def w3_def)
    with nonempty show ?thesis
      by (simp add: delete_and_stop_def Let_def js_isEmpty_def w3_def)
  qed
qed

lemma inv_unsubscribe_without_err:
  "registry_inv w \<Longrightarrow> registry_inv (snd (unsubscribe_without_err t w))"
  by (simp add: unsubscribe_without_err_def inv_delete_and_stop)

lemma unsubscribeAll_result:
  assumes inv: "registry_inv w"
  shows "unsubscribeAll w =
     (None, if filters w = [] then w
            else (clearAsyncExcludingInterval (blockAndLogStreamInterval w) w)
                   \<lparr>blockAndLogStreamer := None, filters := [], filterCallbacks := []\<rparr>)"
proof (cases "filters w = []")
  case True
  with inv have "filterCallbacks w = []" by (auto simp add: registry_inv_def js_keys_def)
  with True show ?thesis by (simp add: unsubscribeAll_def js_keys_def)
next
  case False
  with inv obtain s where s: "blockAndLogStreamer w = Some s" using inv_streamer by blast
  from inv have "js_keys (filters w) = js_keys (filterCallbacks w)" "distinct (js_keys (filters w))"
    by (auto simp add: registry_inv_def)
  from unsubscribe_each_quiet[OF this False s] False show ?thesis
    by (simp add: unsubscribeAll_def)
qed

lemma inv_unsubscribeAll: "registry_inv w \<Longrightarrow> registry_inv (snd (unsubscribeAll w))"
  using inv_cleared inv_streamer by (fastforce simp add: unsubscribeAll_result)

section \<open>Callbacks, dispatch and ticks keep the invariant\<close>

lemma inv_perform: "registry_inv w \<Longrightarrow> registry_inv (snd (perform c w))"
  by (cases c) (simp_all add: inv_unsubscribe_without_err inv_unsubscribeAll)

lemma inv_perform_all: "registry_inv w \<Longrightarrow> registry_inv (snd (perform_all cs w))"
proof (induction cs arbitrary: w)
  case Nil
  then show ?case by simp
next
  case (Cons c cs)
  obtain res w1 where p: "perform c w = (res, w1)" by (cases "perform c w")
  with inv_perform [OF Cons.prems, of c] have inv1: "registry_inv w1" by simp
  show ?case
  proof (cases res)
    case None
    with p Cons.IH [OF inv1] show ?thesis by simp
  next
    case (Some e)
    with p inv1 show ?thesis by simp
  qed
qed

lemma inv_invoke: "registry_inv w \<Longrightarrow> registry_inv (snd (invoke cb w))"
proof -
  assume inv: "registry_inv w"
  obtain res w1 where p: "perform_all (calls cb) w = (res, w1)"
    by (cases "perform_all (calls cb) w")
  with inv_perform_all [OF inv, of "calls cb"] have "registry_inv w1" by simp
  with p show ?thesis by (cases res) (simp_all add: invoke_def)
qed

lemma inv_unsubscribe:
  assumes inv: "registry_inv w"
  shows "registry_inv (snd (unsubscribe t err w))"
proof (cases err)
  case None
  with inv show ?thesis by (simp add: inv_unsubscribe_without_err)
next
  case (Some e)
  show ?thesis
  proof (cases "js_get (filters w) t = Undefined")
    case True
    with Some inv show ?thesis by (simp add: unsubscribe_def)
  next
    case False
    show ?thesis
    proof (cases "js_get (filterCallbacks w) t")
      case (Own cb)
      let ?w0 = "w\<lparr>invocations := invocations w @ [Invocation t cb (Some e) None]\<rparr>"
      obtain res w1 where i: "invoke cb ?w0 = (res, w1)" by (cases "invoke cb ?w0")
      from inv have "registry_inv ?w0" by simp
      from inv_invoke [OF this, of cb] i have inv1: "registry_inv w1" by simp
      show ?thesis
      proof (cases res)
        case None
        with Some False Own i inv_delete_and_stop [OF inv1, of t] show ?thesis
          by (simp add: unsubscribe_def)
      next
        case thrown: (Some x)
        with Some False Own i inv1 show ?thesis by (simp add: unsubscribe_def)
      qed
    next
      case Inherited
      with Some False inv inv_delete_and_stop [OF inv, of t] show ?thesis
        by (cases "inherited_call False t") (simp_all add: unsubscribe_def)
    next
      case Undefined
      with Some False inv show ?thesis by (simp add: unsubscribe_def)
    qed
  qed
qed

lemma inv_unsubscribe_each:
  "registry_inv w \<Longrightarrow> registry_inv (snd (unsubscribe_each ts e w))"
proof (induction ts arbitrary: w)
  case Nil
  then show ?case by simp
next
  case (Cons t ts)
  obtain res w1 where u: "unsubscribe t (Some e) w = (res, w1)"
    by (cases "unsubscribe t (Some e) w")
  with inv_unsubscribe [OF Cons.prems, of t "Some e"] have inv1: "registry_inv w1" by simp
  show ?case
  proof (cases res)
    case None
    with u Cons.IH [OF inv1] show ?thesis by simp
  next
    case (Some x)
    with u inv1 show ?thesis by simp
  qed
qed

lemma inv_on_tick_error: "registry_inv w \<Longrightarrow> registry_inv (snd (on_tick_error e w))"
  by (simp add: on_tick_error_def inv_unsubscribe_each)

lemma inv_dispatch:
  "registry_inv w \<Longrightarrow> registry_inv (snd (dispatch m r l ks w))"
proof (induction ks arbitrary: w)
  case Nil
  then show ?case by simp
next
  case (Cons k ks)
  note inv = Cons.prems
  show ?case
  proof (cases "js_get (filters w) k")
    case (Own f)
    show ?thesis
    proof (cases "m l f")
      case True
      show ?thesis
      proof (cases "tryToDecodeLogOrNoop w l")
        case (Inl e)
        with Own True inv show ?thesis by simp
      next
        case (Inr d)
        show ?thesis
        proof (cases "js_get (filterCallbacks w) k")
          case cb: (Own cb)
          let ?w0 = "w\<lparr>invocations := invocations w @
              [Invocation k cb None (Some (DecodedLogEvent d r))]\<rparr>"
          obtain res w1 where i: "invoke cb ?w0 = (res, w1)" by (cases "invoke cb ?w0")
          from inv have "registry_inv ?w0" by simp
          from inv_invoke [OF this, of cb] i have inv1: "registry_inv w1" by simp
          show ?thesis
          proof (cases res)
            case None
            with Own True Inr cb i Cons.IH [OF inv1] show ?thesis by simp
          next
            case (Some x)
            with Own True Inr cb i inv1 show ?thesis by simp
          qed
        next
          case Inherited
          with Own True Inr inv Cons.IH [OF inv] show ?thesis
            by (cases "inherited_call True k") simp_all
        next
          case Undefined
          with Own True Inr inv show ?thesis by simp
        qed
      qed
    next
      case False
      with Own Cons.IH [OF inv] show ?thesis by simp
    qed
  next
    case Inherited
    with Cons.IH [OF inv] show ?thesis by simp
  next
    case Undefined
    with Cons.IH [OF inv] show ?thesis by simp
  qed
qed

lemma inv_onLogStateChanged:
  "registry_inv w \<Longrightarrow> registry_inv (snd (onLogStateChanged m r l w))"
  by (simp add: onLogStateChanged_def inv_dispatch)

lemma inv_notify: "registry_inv w \<Longrightarrow> registry_inv (notify m subs l w)"
proof (induction subs arbitrary: w)
  case Nil
  then show ?case by simp
next
  case (Cons a subs)
  obtain tok r where a: "a = (tok, r)" by (cases a)
  from inv_onLogStateChanged [OF Cons.prems] have "registry_inv (snd (onLogStateChanged m r l w))" .
  from Cons.IH [OF this] a show ?case by simp
qed

lemma inv_announce: "registry_inv w \<Longrightarrow> registry_inv (announce m ev w)"
  by (cases ev) (simp_all add: announce_def inv_notify split: option.splits)

lemma inv_announce_all: "registry_inv w \<Longrightarrow> registry_inv (announce_all m evs w)"
  by (induction evs arbitrary: w) (simp_all add: inv_announce)

lemma inv_tick:
  assumes inv: "registry_inv w"
  shows "registry_inv (snd (reconcileBlockAsync m lb script w))"
proof (cases lb)
  case (Inl e)
  with inv show ?thesis by (simp add: reconcileBlockAsync_def inv_on_tick_error)
next
  case (Inr b)
  show ?thesis
  proof (cases "blockAndLogStreamer w")
    case None
    with Inr inv show ?thesis by (simp add: reconcileBlockAsync_def)
  next
    case (Some s)
    from inv have inv1: "registry_inv (announce_all m (fst script) w)" by (rule inv_announce_all)
    show ?thesis
    proof (cases "snd script")
      case None
      with Inr Some inv1 show ?thesis
        by (simp add: reconcileBlockAsync_def reconcileNewBlock_def)
    next
      case failed: (Some e)
      with Inr Some inv_on_tick_error [OF inv1, of e] show ?thesis
        by (simp add: reconcileBlockAsync_def reconcileNewBlock_def)
    qed
  qed
qed

lemma reachable_inv: "reachable m w \<Longrightarrow> registry_inv w"
proof (induction rule: reachable.induct)
  case (reachable_new nid decoder)
  show ?case by (rule inv_new)
next
  case (reachable_run w op)
  then show ?case
    by (cases op) (simp_all add: inv_subscribe inv_unsubscribe_without_err inv_unsubscribeAll inv_tick)
qed

section \<open>Further facts about single operations\<close>

lemma same_keys_lookup:
  assumes "js_keys fs = js_keys cs"
  shows "(\<exists>f. map_of fs t = Some f) \<longleftrightarrow> (\<exists>c. map_of cs t = Some c)"
proof -
  from assms have "fst ` set fs = fst ` set cs" unfolding js_keys_def by (metis set_map)
  then have "dom (map_of fs) = dom (map_of cs)" by (simp add: dom_map_of_conv_image_fst)
  then show ?thesis by (auto simp: dom_def set_eq_iff)
qed

lemma inv_streaming: "registry_inv w \<Longrightarrow> streaming w \<longleftrightarrow> filters w \<noteq> []"
  by (cases "blockAndLogStreamer w") (auto simp: registry_inv_def streaming_def)

lemma inv_polling: "registry_inv w \<Longrightarrow> polling w \<longleftrightarrow> filters w \<noteq> []"
  by (cases "blockAndLogStreamer w") (auto simp: registry_inv_def polling_def)

lemma cleared_fields:
  "filters ((clearAsyncExcludingInterval h w)\<lparr>blockAndLogStreamer := None, filters := [], filterCallbacks := []\<rparr>) = []"
  "invocations (clearAsyncExcludingInterval h w) = invocations w"
  "filterCallbacks (clearAsyncExcludingInterval h w) = filterCallbacks w"
  "filters (clearAsyncExcludingInterval h w) = filters w"
  "blockAndLogStreamer (clearAsyncExcludingInterval h w) = blockAndLogStreamer w"
  by (simp_all add: clearAsyncExcludingInterval_def split: option.splits)

lemma tick_idle:
  assumes "registry_inv w" "filters w = []"
  shows "reconcileBlockAsync m lb script w = (None, w)"
proof -
  from assms have s: "blockAndLogStreamer w = None"
    by (cases "blockAndLogStreamer w") (auto simp: registry_inv_def)
  from assms have "filterCallbacks w = []" by (auto simp: registry_inv_def js_keys_def)
  with s show ?thesis
    by (cases lb) (simp_all add: reconcileBlockAsync_def on_tick_error_def js_keys_def)
qed

lemma unsubscribe_unknown_token:
  assumes "filterToken \<notin> set (js_keys (filters w))" "filterToken \<notin> set object_prototype_names"
  shows "unsubscribe filterToken err w = (Some SubscriptionNotFound, w)"
proof -
  from assms(1) have "map_of (filters w) filterToken = None"
    by (simp add: js_keys_def map_of_eq_None_iff)
  with assms(2) show ?thesis
    by (cases err) (simp_all add: unsubscribe_def unsubscribe_without_err_def js_get_def)
qed


section \<open>The registry and the stream\<close>

text \<open>
  C9. Registry coherence: in every state a wrapper reaches, and in the state every
  public operation leaves from there (whether it returns or throws), the filters
  dictionary and the callbacks dictionary have the same tokens as keys, in the same
  order: a token has a filter exactly when it has a callback.
\<close>

theorem registry_coherent:
  assumes "reachable m w" "generated op"
  shows "js_keys (filters w) = js_keys (filterCallbacks w) \<and>
         js_keys (filters (run m op w)) = js_keys (filterCallbacks (run m op w)) \<and>
         (\<forall>t. (\<exists>f. map_of (filters (run m op w)) t = Some f) \<longleftrightarrow>
              (\<exists>c. map_of (filterCallbacks (run m op w)) t = Some c))"
proof -
  from assms have r: "reachable m (run m op w)" by (rule reachable_run)
  from reachable_inv[OF assms(1)] have k0: "js_keys (filters w) = js_keys (filterCallbacks w)"
    by (auto simp: registry_inv_def)
  from reachable_inv[OF r] have k: "js_keys (filters (run m op w)) = js_keys (filterCallbacks (run m op w))"
    by (auto simp: registry_inv_def)
  from k0 k same_keys_lookup[OF k] show ?thesis by blast
qed

theorem registry_coherent_witness:
  "reachable (=) (ContractWrapper 1 None :: (nat, callback, nat, nat) contract_wrapper) \<and>
   generated (Subscribe (Inr 5) callback_a token_a :: (nat, nat) operation) \<and>
   js_keys (filters (run (=) (Subscribe (Inr 5) callback_a token_a)
       (ContractWrapper 1 None :: (nat, callback, nat, nat) contract_wrapper))) = [token_a] \<and>
   js_keys (filterCallbacks (run (=) (Subscribe (Inr 5) callback_a token_a)
       (ContractWrapper 1 None :: (nat, callback, nat, nat) contract_wrapper))) = [token_a]"
proof -
  have r: "reachable (=) (ContractWrapper 1 None :: (nat, callback, nat, nat) contract_wrapper)"
    by (rule reachable_new)
  have g: "generated (Subscribe (Inr 5) callback_a token_a :: (nat, nat) operation)"
    by (simp add: is_uuid_def)
  from registry_coherent[OF r g] r g show ?thesis
    by (simp add: run_defs)
qed

text \<open>
  C2. In every state a wrapper reaches, and after every public operation from there
  (subscribe, unsubscribe, unsubscribeAll, tick), the wrapper holds a streamer exactly
  when a subscription is registered, and a poll timer is armed exactly when a
  subscription is registered. So the subscribe that finds the registry empty starts
  the stream, and the removal that empties the registry stops it.
\<close>

theorem stream_runs_iff_subscribed:
  assumes "reachable m w" "generated op"
  shows "(streaming w \<longleftrightarrow> filters w \<noteq> []) \<and> (polling w \<longleftrightarrow> filters w \<noteq> []) \<and>
         (streaming (run m op w) \<longleftrightarrow> filters (run m op w) \<noteq> []) \<and>
         (polling (run m op w) \<longleftrightarrow> filters (run m op w) \<noteq> [])"
proof -
  from assms have "reachable m (run m op w)" by (rule reachable_run)
  then have "registry_inv (run m op w)" by (rule reachable_inv)
  moreover from assms(1) have "registry_inv w" by (rule reachable_inv)
  ultimately show ?thesis by (simp add: inv_streaming inv_polling)
qed

theorem stream_runs_iff_subscribed_witness:
  "reachable (=) (run (=) (Subscribe (Inr 5) callback_a token_a)
       (ContractWrapper 1 None :: (nat, callback, nat, nat) contract_wrapper)) \<and>
   generated (Unsubscribe token_a :: (nat, nat) operation) \<and>
   streaming (run (=) (Subscribe (Inr 5) callback_a token_a)
       (ContractWrapper 1 None :: (nat, callback, nat, nat) contract_wrapper)) \<and>
   polling (run (=) (Subscribe (Inr 5) callback_a token_a)
       (ContractWrapper 1 None :: (nat, callback, nat, nat) contract_wrapper)) \<and>
   filters (run (=) (Unsubscribe token_a) (run (=) (Subscribe (Inr 5) callback_a token_a)
       (ContractWrapper 1 None :: (nat, callback, nat, nat) contract_wrapper))) = [] \<and>
   \<not> streaming (run (=) (Unsubscribe token_a) (run (=) (Subscribe (Inr 5) callback_a token_a)
       (ContractWrapper 1 None :: (nat, callback, nat, nat) contract_wrapper))) \<and>
   \<not> polling (run (=) (Unsubscribe token_a) (run (=) (Subscribe (Inr 5) callback_a token_a)
       (ContractWrapper 1 None :: (nat, callback, nat, nat) contract_wrapper)))"
proof -
  let ?w0 = "ContractWrapper 1 None :: (nat, callback, nat, nat) contract_wrapper"
  let ?w1 = "run (=) (Subscribe (Inr 5) callback_a token_a) ?w0"
  have g0: "generated (Subscribe (Inr 5) callback_a token_a :: (nat, nat) operation)"
    by (simp add: is_uuid_def)
  have r: "reachable (=) ?w1"
    by (rule reachable_run [OF reachable_new g0])
  have g: "generated (Unsubscribe token_a :: (nat, nat) operation)" by simp
  have f1: "filters ?w1 \<noteq> []" by (simp add: run_defs)
  have f2: "filters (run (=) (Unsubscribe token_a) ?w1) = []" by (simp add: run_defs)
  from stream_runs_iff_subscribed [OF r g] r g f1 f2 show ?thesis by simp
qed

text \<open>
  C8. \<^verbatim>\<open>unsubscribeAll\<close> on a wrapper in any state it reaches returns without
  throwing, leaves both dictionaries empty, invokes no callback, and leaves no
  streamer and no armed timer; with no subscription it changes nothing.
\<close>

theorem unsubscribeAll_always_succeeds:
  assumes "reachable m w"
  shows "fst (unsubscribeAll w) = None \<and>
         filters (snd (unsubscribeAll w)) = [] \<and>
         filterCallbacks (snd (unsubscribeAll w)) = [] \<and>
         invocations (snd (unsubscribeAll w)) = invocations w \<and>
         \<not> streaming (snd (unsubscribeAll w)) \<and>
         \<not> polling (snd (unsubscribeAll w)) \<and>
         (filters w = [] \<longrightarrow> snd (unsubscribeAll w) = w)"
proof -
  from assms have inv: "registry_inv w" by (rule reachable_inv)
  then have inv': "registry_inv (snd (unsubscribeAll w))" by (rule inv_unsubscribeAll)
  from inv have cb: "filters w = [] \<Longrightarrow> filterCallbacks w = []"
    by (auto simp: registry_inv_def js_keys_def)
  have res: "fst (unsubscribeAll w) = None" "filters (snd (unsubscribeAll w)) = []"
    "filterCallbacks (snd (unsubscribeAll w)) = []"
    "invocations (snd (unsubscribeAll w)) = invocations w"
    "filters w = [] \<longrightarrow> snd (unsubscribeAll w) = w"
    using cb by (simp_all add: unsubscribeAll_result [OF inv] cleared_fields)
  with inv' show ?thesis by (simp add: inv_streaming inv_polling)
qed

theorem unsubscribeAll_always_succeeds_witness:
  "reachable (=) (run (=) (Subscribe (Inr 6) callback_b token_b) (run (=) (Subscribe (Inr 5) callback_a token_a)
       (ContractWrapper 1 None :: (nat, callback, nat, nat) contract_wrapper))) \<and>
   js_keys (filters (run (=) (Subscribe (Inr 6) callback_b token_b) (run (=) (Subscribe (Inr 5) callback_a token_a)
       (ContractWrapper 1 None :: (nat, callback, nat, nat) contract_wrapper)))) = [token_a, token_b] \<and>
   fst (unsubscribeAll (run (=) (Subscribe (Inr 6) callback_b token_b) (run (=) (Subscribe (Inr 5) callback_a token_a)
       (ContractWrapper 1 None :: (nat, callback, nat, nat) contract_wrapper)))) = None \<and>
   filters (snd (unsubscribeAll (run (=) (Subscribe (Inr 6) callback_b token_b) (run (=) (Subscribe (Inr 5) callback_a token_a)
       (ContractWrapper 1 None :: (nat, callback, nat, nat) contract_wrapper))))) = [] \<and>
   invocations (snd (unsubscribeAll (run (=) (Subscribe (Inr 6) callback_b token_b) (run (=) (Subscribe (Inr 5) callback_a token_a)
       (ContractWrapper 1 None :: (nat, callback, nat, nat) contract_wrapper))))) = []"
proof -
  let ?w0 = "ContractWrapper 1 None :: (nat, callback, nat, nat) contract_wrapper"
  let ?w1 = "run (=) (Subscribe (Inr 5) callback_a token_a) ?w0"
  let ?w2 = "run (=) (Subscribe (Inr 6) callback_b token_b) ?w1"
  have ga: "generated (Subscribe (Inr 5) callback_a token_a :: (nat, nat) operation)"
    by (simp add: is_uuid_def)
  have gb: "generated (Subscribe (Inr 6) callback_b token_b :: (nat, nat) operation)"
    by (simp add: is_uuid_def)
  have r: "reachable (=) ?w2"
    by (rule reachable_run [OF reachable_run [OF reachable_new ga] gb])
  have k: "js_keys (filters ?w2) = [token_a, token_b]" by (simp add: run_defs)
  have i: "invocations ?w2 = []" by (simp add: run_defs)
  from unsubscribeAll_always_succeeds [OF r] r k i show ?thesis by simp
qed

text \<open>
  C4. The guard of \<^verbatim>\<open>_unsubscribe\<close> reads \<^verbatim>\<open>this._filters[filterToken]\<close>, and that
  read finds the members inherited from \<^verbatim>\<open>Object.prototype\<close>. For the token
  \<^verbatim>\<open>constructor\<close>, which is not in the registry, the call on a wrapper with one
  subscription returns normally and changes nothing, and the call on a new wrapper
  throws \<^verbatim>\<open>TypeError\<close> from \<^verbatim>\<open>_stopBlockAndLogStream\<close>: neither reports
  \<^verbatim>\<open>SubscriptionNotFound\<close>. (For a token that is neither registered nor such a name,
  \<open>unsubscribe_unknown_token\<close> above gives \<^verbatim>\<open>SubscriptionNotFound\<close> and an unchanged
  state.)
\<close>

theorem unsubscribe_inherited_name_not_rejected:
  "js_keys (filters (run (=) (Subscribe (Inr 5) callback_a token_a)
       (ContractWrapper 1 None :: (nat, callback, nat, nat) contract_wrapper))) = [token_a] \<and>
   unsubscribe ''constructor'' None (run (=) (Subscribe (Inr 5) callback_a token_a)
       (ContractWrapper 1 None :: (nat, callback, nat, nat) contract_wrapper)) =
     (None, run (=) (Subscribe (Inr 5) callback_a token_a)
       (ContractWrapper 1 None :: (nat, callback, nat, nat) contract_wrapper)) \<and>
   unsubscribe ''constructor'' None (ContractWrapper 1 None :: (nat, callback, nat, nat) contract_wrapper) =
     (Some TypeError, ContractWrapper 1 None)"
  by (simp add: run_defs)


section \<open>A tick on an empty registry\<close>

text \<open>
  C7. When the only subscription of a wrapper in a reachable state is removed, the
  removal returns normally and leaves an empty registry, no streamer and no armed
  timer; the body of a tick applied to that state (the state the wrapper has when the
  fetch of the block comes back, so also a tick whose fetch was under way when the
  stream was stopped) returns the same state: no callback is invoked and nothing is
  changed, whatever the fetch and the streamer would have answered.
\<close>

theorem tick_after_last_unsubscribe_is_noop:
  assumes "reachable m w" "js_keys (filters w) = [t]"
  shows "fst (unsubscribe t None w) = None \<and>
         filters (snd (unsubscribe t None w)) = [] \<and>
         filterCallbacks (snd (unsubscribe t None w)) = [] \<and>
         \<not> streaming (snd (unsubscribe t None w)) \<and>
         \<not> polling (snd (unsubscribe t None w)) \<and>
         reconcileBlockAsync m latestBlock script (snd (unsubscribe t None w)) =
           (None, snd (unsubscribe t None w))"
proof -
  let ?w' = "snd (unsubscribe t None w)"
  from assms(1) have inv: "registry_inv w" by (rule reachable_inv)
  then have inv': "registry_inv ?w'" by (rule inv_unsubscribe)
  from assms(2) obtain f where f: "filters w = [(t, f)]"
    by (cases "filters w") (auto simp: js_keys_def)
  with inv have "js_keys (filterCallbacks w) = [t]" by (auto simp: registry_inv_def js_keys_def)
  then obtain cb where cb: "filterCallbacks w = [(t, cb)]"
    by (cases "filterCallbacks w") (auto simp: js_keys_def)
  from f inv obtain s where s: "blockAndLogStreamer w = Some s" using inv_streamer [of w] by auto
  from unsubscribe_head_last_quiet [OF f cb s]
  have res: "fst (unsubscribe t None w) = None" "filters ?w' = []" "filterCallbacks ?w' = []"
    by (simp_all add: cleared_fields)
  with inv' tick_idle [OF inv'] show ?thesis
    by (simp add: inv_streaming inv_polling)
qed

theorem tick_after_last_unsubscribe_is_noop_witness:
  "reachable (=) (run (=) (Subscribe (Inr 5) callback_a token_a)
       (ContractWrapper 1 None :: (nat, callback, nat, nat) contract_wrapper)) \<and>
   js_keys (filters (run (=) (Subscribe (Inr 5) callback_a token_a)
       (ContractWrapper 1 None :: (nat, callback, nat, nat) contract_wrapper))) = [token_a] \<and>
   reconcileBlockAsync (=) (Inr (Block 10 ''0xa'' ''0x9'')) ([LogAdded 5], None)
     (snd (unsubscribe token_a None (run (=) (Subscribe (Inr 5) callback_a token_a)
       (ContractWrapper 1 None :: (nat, callback, nat, nat) contract_wrapper)))) =
     (None, snd (unsubscribe token_a None (run (=) (Subscribe (Inr 5) callback_a token_a)
       (ContractWrapper 1 None :: (nat, callback, nat, nat) contract_wrapper)))) \<and>
   invocations (snd (unsubscribe token_a None (run (=) (Subscribe (Inr 5) callback_a token_a)
       (ContractWrapper 1 None :: (nat, callback, nat, nat) contract_wrapper)))) = []"
proof -
  let ?w0 = "ContractWrapper 1 None :: (nat, callback, nat, nat) contract_wrapper"
  let ?w1 = "run (=) (Subscribe (Inr 5) callback_a token_a) ?w0"
  have ga: "generated (Subscribe (Inr 5) callback_a token_a :: (nat, nat) operation)"
    by (simp add: is_uuid_def)
  have r: "reachable (=) ?w1" by (rule reachable_run [OF reachable_new ga])
  have k: "js_keys (filters ?w1) = [token_a]" by (simp add: run_defs)
  have i: "invocations (snd (unsubscribe token_a None ?w1)) = []" by (simp add: run_defs)
  from tick_after_last_unsubscribe_is_noop [OF r k, of "Inr (Block 10 ''0xa'' ''0x9'')" "([LogAdded 5], None)"]
    r k i show ?thesis by simp
qed

section \<open>Callbacks that only return\<close>

lemma invoke_quiet: "quiet cb \<Longrightarrow> invoke cb w = (None, w)"
  by (simp add: quiet_def invoke_def)

lemma well_behaved_invocations [simp]:
  "well_behaved (w\<lparr>invocations := ivs\<rparr>) = well_behaved w"
  by (simp add: well_behaved_def)

lemma well_behaved_own:
  assumes "well_behaved w" "js_get (filterCallbacks w) t = Own cb"
  shows "quiet cb"
proof -
  from assms(2) have "map_of (filterCallbacks w) t = Some cb"
    by (auto simp: js_get_def split: option.splits if_splits)
  then have "(t, cb) \<in> set (filterCallbacks w)" by (rule map_of_SomeD)
  with assms(1) show ?thesis by (auto simp: well_behaved_def list_all_iff)
qed

lemma unsubscribe_head_last:
  assumes "filters w = [(t, f)]" "filterCallbacks w = [(t, cb)]" "blockAndLogStreamer w = Some s"
    "quiet cb"
  shows "unsubscribe t (Some e) w =
     (None, (clearAsyncExcludingInterval (blockAndLogStreamInterval w) w)
        \<lparr>blockAndLogStreamer := None, filters := [], filterCallbacks := [],
         invocations := invocations w @ [Invocation t cb (Some e) None]\<rparr>)"
proof -
  let ?w0 = "w\<lparr>invocations := invocations w @ [Invocation t cb (Some e) None]\<rparr>"
  from assms(1-3) have "delete_and_stop t ?w0 =
     (None, (clearAsyncExcludingInterval (blockAndLogStreamInterval ?w0) ?w0)
        \<lparr>blockAndLogStreamer := None, filters := [], filterCallbacks := []\<rparr>)"
    by (intro delete_last) simp_all
  with assms(1,2) invoke_quiet [OF assms(4), of ?w0] show ?thesis
    by (simp add: unsubscribe_def clearAsyncExcludingInterval_def split: option.splits)
qed

lemma unsubscribe_head_more:
  assumes "filters w = (t, f) # fs" "filterCallbacks w = (t, cb) # ps"
    "t \<notin> fst ` set fs" "t \<notin> fst ` set ps" "fs \<noteq> []" "quiet cb"
  shows "unsubscribe t (Some e) w =
     (None, w\<lparr>invocations := invocations w @ [Invocation t cb (Some e) None],
        filters := fs, filterCallbacks := ps\<rparr>)"
proof -
  let ?w0 = "w\<lparr>invocations := invocations w @ [Invocation t cb (Some e) None]\<rparr>"
  from assms(1-5) have "delete_and_stop t ?w0 =
     (None, ?w0\<lparr>filters := fs, filterCallbacks := ps\<rparr>)"
    by (intro delete_earlier) simp_all
  with assms(1,2) invoke_quiet [OF assms(6), of ?w0] show ?thesis
    by (simp add: unsubscribe_def)
qed

lemma unsubscribe_each_error:
  "js_keys (filters w) = js_keys (filterCallbacks w) \<Longrightarrow> distinct (js_keys (filters w)) \<Longrightarrow>
   filters w \<noteq> [] \<Longrightarrow> blockAndLogStreamer w = Some s \<Longrightarrow> well_behaved w \<Longrightarrow>
   unsubscribe_each (js_keys (filterCallbacks w)) e w =
     (None, (clearAsyncExcludingInterval (blockAndLogStreamInterval w) w)
        \<lparr>blockAndLogStreamer := None, filters := [], filterCallbacks := [],
         invocations := invocations w @ error_invocations e (filterCallbacks w)\<rparr>)"
proof (induction "filterCallbacks w" arbitrary: w)
  case Nil
  then show ?case by (simp add: js_keys_def)
next
  case (Cons p ps)
  obtain t cb where p: "p = (t, cb)" by (cases p)
  from Cons.hyps(2) p have cbs: "filterCallbacks w = (t, cb) # ps" by simp
  from Cons.prems(5) cbs have q: "quiet cb" and qs: "list_all (\<lambda>(t, cb). quiet cb) ps"
    by (simp_all add: well_behaved_def)
  from Cons.prems(1,2) cbs obtain f fs where fs: "filters w = (t, f) # fs"
    "js_keys fs = js_keys ps" "t \<notin> fst ` set fs" "t \<notin> fst ` set ps" "distinct (js_keys fs)"
    by (metis same_keys_Cons)
  show ?case
  proof (cases ps)
    case Nil
    with fs have "fs = []" by (simp add: js_keys_def)
    with Nil cbs fs Cons.prems(4) q show ?thesis
      by (simp add: js_keys_def unsubscribe_head_last error_invocations_def)
  next
    case ps: (Cons q' qs')
    define w3 where "w3 = w\<lparr>invocations := invocations w @ [Invocation t cb (Some e) None],
        filters := fs, filterCallbacks := ps\<rparr>"
    from ps fs(2) have ne: "fs \<noteq> []" by (auto simp: js_keys_def)
    have step: "unsubscribe t (Some e) w = (None, w3)"
      unfolding w3_def using fs(1) cbs fs(3,4) ne q by (rule unsubscribe_head_more)
    have "unsubscribe_each (js_keys (filterCallbacks w3)) e w3 =
     (None, (clearAsyncExcludingInterval (blockAndLogStreamInterval w3) w3)
        \<lparr>blockAndLogStreamer := None, filters := [], filterCallbacks := [],
         invocations := invocations w3 @ error_invocations e (filterCallbacks w3)\<rparr>)"
    proof (rule Cons.hyps(1))
      show "ps = filterCallbacks w3" by (simp add: w3_def)
      show "js_keys (filters w3) = js_keys (filterCallbacks w3)" using fs(2) by (simp add: w3_def)
      show "distinct (js_keys (filters w3))" using fs(5) by (simp add: w3_def)
      show "filters w3 \<noteq> []" using ne by (simp add: w3_def)
      show "blockAndLogStreamer w3 = Some s" using Cons.prems(4) by (simp add: w3_def)
      show "well_behaved w3" using qs by (simp add: w3_def well_behaved_def)
    qed
    then show ?thesis
      using step cbs
      by (simp add: js_keys_def w3_def error_invocations_def clearAsyncExcludingInterval_def
          split: option.splits)
  qed
qed

lemma on_tick_error_result:
  assumes inv: "registry_inv w" and wb: "well_behaved w"
  shows "on_tick_error e w =
     (None, if filters w = [] then w
            else (clearAsyncExcludingInterval (blockAndLogStreamInterval w) w)
                   \<lparr>blockAndLogStreamer := None, filters := [], filterCallbacks := [],
                    invocations := invocations w @ error_invocations e (filterCallbacks w)\<rparr>)"
proof (cases "filters w = []")
  case True
  with inv have "filterCallbacks w = []" by (auto simp add: registry_inv_def js_keys_def)
  with True show ?thesis by (simp add: on_tick_error_def js_keys_def)
next
  case False
  with inv obtain s where s: "blockAndLogStreamer w = Some s" using inv_streamer by blast
  from inv have "js_keys (filters w) = js_keys (filterCallbacks w)" "distinct (js_keys (filters w))"
    by (auto simp add: registry_inv_def)
  from unsubscribe_each_error[OF this False s wb] False show ?thesis
    by (simp add: on_tick_error_def)
qed

lemma tryToDecode_invocations [simp]:
  "tryToDecodeLogOrNoop (w\<lparr>invocations := ivs\<rparr>) l = tryToDecodeLogOrNoop w l"
  by (simp add: tryToDecodeLogOrNoop_def)

lemma log_invocations_invocations [simp]:
  "log_invocations m (w\<lparr>invocations := ivs\<rparr>) r l = log_invocations m w r l"
  by (simp add: log_invocations_def split: sum.splits)

lemma event_invocations_invocations [simp]:
  "event_invocations m (w\<lparr>invocations := ivs\<rparr>) ev = event_invocations m w ev"
  by (simp add: event_invocations_def)

lemma event_invocations_invocations_fun [simp]:
  "event_invocations m (w\<lparr>invocations := ivs\<rparr>) = event_invocations m w"
  by (rule ext) simp

lemma matched_invocations [simp]:
  "matched m (w\<lparr>invocations := ivs\<rparr>) l = matched m w l"
  by (simp add: matched_def)

lemma own_filter:
  assumes "distinct (map fst (filters w))" "(t, f) \<in> set (filters w)"
  shows "js_get (filters w) t = Own f"
  using map_of_is_SomeI [OF assms] by (simp add: js_get_def)

lemma dispatch_decoded:
  assumes "tryToDecodeLogOrNoop w l = Inr d"
    and "distinct (map fst (filters w))" "set fs \<subseteq> set (filters w)"
    and "\<forall>t \<in> fst ` set fs. \<exists>cb. js_get (filterCallbacks w) t = Own cb \<and> quiet cb"
  shows "dispatch m r l (map fst fs) w =
    (None, w\<lparr>invocations := invocations w @
       matching_invocations (filterCallbacks w) d r (filter (\<lambda>(t, f). m l f) fs)\<rparr>)"
  using assms
proof (induction fs arbitrary: w)
  case Nil
  then show ?case by (simp add: matching_invocations_def)
next
  case (Cons a fs)
  obtain t f where a: "a = (t, f)" by (cases a)
  from Cons.prems(4) a obtain cb where cb: "js_get (filterCallbacks w) t = Own cb" "quiet cb"
    by auto
  from Cons.prems(2,3) a have own: "js_get (filters w) t = Own f" by (intro own_filter) simp_all
  show ?case
  proof (cases "m l f")
    case True
    let ?w1 = "w\<lparr>invocations := invocations w @ [Invocation t cb None (Some (DecodedLogEvent d r))]\<rparr>"
    have "dispatch m r l (map fst fs) ?w1 = (None, ?w1\<lparr>invocations := invocations ?w1 @
       matching_invocations (filterCallbacks ?w1) d r (filter (\<lambda>(t, f). m l f) fs)\<rparr>)"
      using Cons.prems by (intro Cons.IH) simp_all
    with True a cb own Cons.prems(1) invoke_quiet [OF cb(2), of ?w1] show ?thesis
      by (simp add: matching_invocations_def)
  next
    case False
    have "dispatch m r l (map fst fs) w = (None, w\<lparr>invocations := invocations w @
       matching_invocations (filterCallbacks w) d r (filter (\<lambda>(t, f). m l f) fs)\<rparr>)"
      using Cons.prems by (intro Cons.IH) simp_all
    with False a own show ?thesis by simp
  qed
qed

lemma dispatch_unmatched:
  assumes "distinct (map fst (filters w))" "set fs \<subseteq> set (filters w)"
    "\<not> list_ex (\<lambda>(t, f). m l f) fs"
  shows "dispatch m r l (map fst fs) w = (None, w)"
  using assms
proof (induction fs)
  case Nil
  then show ?case by simp
next
  case (Cons a fs)
  obtain t f where a: "a = (t, f)" by (cases a)
  from Cons.prems(1,2) a have own: "js_get (filters w) t = Own f" by (intro own_filter) simp_all
  from Cons a own show ?case by simp
qed

lemma dispatch_throws:
  assumes "distinct (map fst (filters w))" "set fs \<subseteq> set (filters w)"
    "tryToDecodeLogOrNoop w l = Inl e" "list_ex (\<lambda>(t, f). m l f) fs"
  shows "dispatch m r l (map fst fs) w = (Some e, w)"
  using assms
proof (induction fs)
  case Nil
  then show ?case by simp
next
  case (Cons a fs)
  obtain t f where a: "a = (t, f)" by (cases a)
  from Cons.prems(1,2) a have own: "js_get (filters w) t = Own f" by (intro own_filter) simp_all
  from Cons a own show ?case by (cases "m l f") simp_all
qed

lemma own_callbacks:
  assumes "registry_inv w"
  shows "\<forall>t \<in> fst ` set (filters w). \<exists>cb. js_get (filterCallbacks w) t = Own cb"
proof
  fix t assume "t \<in> fst ` set (filters w)"
  moreover from assms have "map fst (filters w) = map fst (filterCallbacks w)"
    by (auto simp add: registry_inv_def js_keys_def)
  ultimately have "t \<in> fst ` set (filterCallbacks w)" by (metis set_map)
  then obtain cb where "map_of (filterCallbacks w) t = Some cb"
    by (metis domD dom_map_of_conv_image_fst)
  then show "\<exists>cb. js_get (filterCallbacks w) t = Own cb" by (simp add: js_get_def)
qed

lemma quiet_callbacks:
  assumes "registry_inv w" "well_behaved w"
  shows "\<forall>t \<in> fst ` set (filters w). \<exists>cb. js_get (filterCallbacks w) t = Own cb \<and> quiet cb"
  using own_callbacks [OF assms(1)] well_behaved_own [OF assms(2)] by blast

lemma inv_distinct: "registry_inv w \<Longrightarrow> distinct (map fst (filters w))"
  by (auto simp: registry_inv_def js_keys_def)

lemma filter_unmatched:
  "\<not> list_ex P xs \<Longrightarrow> filter P xs = []"
  by (induction xs) auto

lemma unmatched_invocations:
  "\<not> matched m w l \<Longrightarrow> log_invocations m w r l = []"
  by (simp add: matched_def log_invocations_def filter_unmatched matching_invocations_def
      split: sum.splits)

lemma onLogStateChanged_result:
  assumes "registry_inv w" "well_behaved w"
    "matched m w l \<longrightarrow> (\<exists>d. tryToDecodeLogOrNoop w l = Inr d)"
  shows "onLogStateChanged m r l w =
     (None, w\<lparr>invocations := invocations w @ log_invocations m w r l\<rparr>)"
proof (cases "matched m w l")
  case True
  with assms(3) obtain d where d: "tryToDecodeLogOrNoop w l = Inr d" by auto
  from dispatch_decoded [OF d inv_distinct [OF assms(1)] subset_refl
      quiet_callbacks [OF assms(1,2)], of m r] d
  show ?thesis
    by (simp add: onLogStateChanged_def log_invocations_def js_keys_def)
next
  case False
  with dispatch_unmatched [OF inv_distinct [OF assms(1)] subset_refl, of m l r]
  show ?thesis
    by (simp add: onLogStateChanged_def matched_def unmatched_invocations js_keys_def)
qed

lemma onLogStateChanged_throws:
  assumes "registry_inv w" "matched m w l" "tryToDecodeLogOrNoop w l = Inl e"
  shows "onLogStateChanged m r l w = (Some e, w)"
  using dispatch_throws [OF inv_distinct [OF assms(1)] subset_refl assms(3), of m r] assms(2)
  by (simp add: onLogStateChanged_def matched_def js_keys_def)

lemma undecoded_invocations:
  "tryToDecodeLogOrNoop w l = Inl e \<Longrightarrow> log_invocations m w r l = []"
  by (simp add: log_invocations_def)

lemma onLogStateChanged_state:
  assumes "registry_inv w" "well_behaved w"
  shows "snd (onLogStateChanged m r l w) =
     w\<lparr>invocations := invocations w @ log_invocations m w r l\<rparr>"
proof (cases "tryToDecodeLogOrNoop w l")
  case (Inr d)
  with onLogStateChanged_result [OF assms, of m l r] show ?thesis by simp
next
  case (Inl e)
  show ?thesis
  proof (cases "matched m w l")
    case True
    from onLogStateChanged_throws [OF assms(1) True Inl, of r] Inl show ?thesis
      by (simp add: undecoded_invocations)
  next
    case False
    with onLogStateChanged_result [OF assms, of m l r] show ?thesis by simp
  qed
qed

lemma announce_result:
  assumes "registry_inv w" "well_behaved w"
  shows "announce m ev w = w\<lparr>invocations := invocations w @ event_invocations m w ev\<rparr>"
proof (cases "blockAndLogStreamer w")
  case None
  with assms(1) have "filters w = []" using inv_empty by blast
  then have "event_invocations m w ev = []"
    by (simp add: event_invocations_def log_invocations_def matching_invocations_def
        split: sum.splits)
  with None show ?thesis by (simp add: announce_def)
next
  case (Some s)
  with assms(1) obtain a b where subs: "onLogAddedSubscribers s = [(a, False)]"
     "onLogRemovedSubscribers s = [(b, True)]"
    by (auto simp add: registry_inv_def)
  with Some onLogStateChanged_state [OF assms, of m] show ?thesis
    by (cases ev) (simp_all add: announce_def event_invocations_def)
qed

lemma announce_all_result:
  assumes "registry_inv w" "well_behaved w"
  shows "announce_all m evs w =
     w\<lparr>invocations := invocations w @ concat (map (event_invocations m w) evs)\<rparr>"
  using assms
proof (induction evs arbitrary: w)
  case Nil
  then show ?case by simp
next
  case (Cons ev evs)
  let ?w1 = "w\<lparr>invocations := invocations w @ event_invocations m w ev\<rparr>"
  from Cons.prems have step: "announce m ev w = ?w1" by (rule announce_result)
  have "announce_all m evs ?w1 =
     ?w1\<lparr>invocations := invocations ?w1 @ concat (map (event_invocations m ?w1) evs)\<rparr>"
    using Cons.prems by (intro Cons.IH) simp_all
  with step show ?case by simp
qed

lemma matching_member:
  "(t, f) \<in> set fs \<Longrightarrow> js_get cbs t = Own cb \<Longrightarrow>
   Invocation t cb None (Some (DecodedLogEvent d r)) \<in> set (matching_invocations cbs d r fs)"
  by (force simp add: matching_invocations_def)

section \<open>A failed tick\<close>

text \<open>
  C1, as amended. A tick of a wrapper in a reachable state, all of whose callbacks
  return normally without calling back into the wrapper, fails with \<open>err\<close> (the
  fetch of the head throws, or \<^verbatim>\<open>reconcileNewBlock\<close> rejects), and \<open>w1\<close> is the
  state at that moment. Then the tick itself returns normally; it has called, after
  everything recorded up to the failure, the callback of every subscription once, in
  the order of the registry, with \<open>err\<close> and no event (the tokens are distinct);
  both dictionaries are empty; no streamer is held and no timer is armed; and a tick
  run again on the state it leaves does nothing, whatever the node would answer.
\<close>

theorem failed_tick_notifies_every_subscriber:
  assumes "reachable m w" "well_behaved w"
    and "tick_failure m latestBlock script w = Some (err, w1)"
  shows "fst (reconcileBlockAsync m latestBlock script w) = None \<and>
         invocations (snd (reconcileBlockAsync m latestBlock script w)) =
           invocations w1 @ error_invocations err (filterCallbacks w) \<and>
         distinct (js_keys (filterCallbacks w)) \<and>
         filters (snd (reconcileBlockAsync m latestBlock script w)) = [] \<and>
         filterCallbacks (snd (reconcileBlockAsync m latestBlock script w)) = [] \<and>
         \<not> streaming (snd (reconcileBlockAsync m latestBlock script w)) \<and>
         \<not> polling (snd (reconcileBlockAsync m latestBlock script w)) \<and>
         (\<forall>nextBlock nextScript.
            reconcileBlockAsync m nextBlock nextScript
              (snd (reconcileBlockAsync m latestBlock script w)) =
            (None, snd (reconcileBlockAsync m latestBlock script w)))"
proof -
  let ?w' = "snd (reconcileBlockAsync m latestBlock script w)"
  from assms(1) have inv: "registry_inv w" by (rule reachable_inv)
  then have inv': "registry_inv ?w'" by (rule inv_tick)
  from inv have d: "distinct (js_keys (filterCallbacks w))" by (auto simp: registry_inv_def)
  have frame: "\<exists>ivs. w1 = w\<lparr>invocations := ivs\<rparr>"
  proof (cases latestBlock)
    case (Inl e)
    with assms(3) have "w1 = w" by (simp add: tick_failure_def)
    then have "w1 = w\<lparr>invocations := invocations w\<rparr>" by simp
    then show ?thesis ..
  next
    case (Inr b)
    with assms(3) have "w1 = announce_all m (fst script) w"
      by (auto simp add: tick_failure_def reconcileNewBlock_def split: option.splits)
    with announce_all_result [OF inv assms(2), of m "fst script"] show ?thesis by auto
  qed
  then obtain ivs where w1: "w1 = w\<lparr>invocations := ivs\<rparr>" ..
  with inv have inv1: "registry_inv w1" by simp
  from w1 assms(2) have wb1: "well_behaved w1" by simp
  have run: "reconcileBlockAsync m latestBlock script w = on_tick_error err w1"
    using assms(3)
    by (auto simp add: tick_failure_def reconcileBlockAsync_def
        split: sum.splits option.splits prod.splits)
  from inv1 have cb1: "filters w1 = [] \<Longrightarrow> filterCallbacks w1 = []"
    by (auto simp: registry_inv_def js_keys_def)
  have res: "fst (on_tick_error err w1) = None"
    "invocations (snd (on_tick_error err w1)) = invocations w1 @ error_invocations err (filterCallbacks w1)"
    "filters (snd (on_tick_error err w1)) = []"
    "filterCallbacks (snd (on_tick_error err w1)) = []"
    using cb1
    by (simp_all add: on_tick_error_result [OF inv1 wb1] cleared_fields error_invocations_def)
  have same: "filterCallbacks w1 = filterCallbacks w" by (simp add: w1)
  from res(3) run have empty: "filters ?w' = []" by simp
  have idle: "reconcileBlockAsync m nextBlock nextScript ?w' = (None, ?w')"
    for nextBlock nextScript
    using inv' empty by (rule tick_idle)
  from res run same have fields: "fst (reconcileBlockAsync m latestBlock script w) = None"
    "invocations ?w' = invocations w1 @ error_invocations err (filterCallbacks w)"
    "filterCallbacks ?w' = []"
    by simp_all
  from inv' empty have off: "\<not> streaming ?w'" "\<not> polling ?w'"
    by (simp_all add: inv_streaming inv_polling)
  from fields d empty off idle show ?thesis by blast
qed

theorem failed_tick_notifies_every_subscriber_witness:
  "reachable (=) (run (=) (Subscribe (Inr 6) callback_b token_b)
       (run (=) (Subscribe (Inr 5) callback_a token_a)
       (ContractWrapper 1 (Some (\<lambda>l. Inr (RawLog l))) :: (nat, callback, nat, nat) contract_wrapper))) \<and>
   well_behaved (run (=) (Subscribe (Inr 6) callback_b token_b)
       (run (=) (Subscribe (Inr 5) callback_a token_a)
       (ContractWrapper 1 (Some (\<lambda>l. Inr (RawLog l))) :: (nat, callback, nat, nat) contract_wrapper))) \<and>
   tick_failure (=) (Inr (Block 10 ''0xa'' ''0x9''))
     ([LogAdded 5], Some (Thrown ''Error fetching logs''))
     (run (=) (Subscribe (Inr 6) callback_b token_b)
       (run (=) (Subscribe (Inr 5) callback_a token_a)
       (ContractWrapper 1 (Some (\<lambda>l. Inr (RawLog l))) :: (nat, callback, nat, nat) contract_wrapper))) =
     Some (Thrown ''Error fetching logs'',
       (run (=) (Subscribe (Inr 6) callback_b token_b)
       (run (=) (Subscribe (Inr 5) callback_a token_a)
       (ContractWrapper 1 (Some (\<lambda>l. Inr (RawLog l))) :: (nat, callback, nat, nat) contract_wrapper)))
       \<lparr>invocations := [Invocation token_a callback_a None (Some (DecodedLogEvent (RawLog 5) False))]\<rparr>) \<and>
   invocations (snd (reconcileBlockAsync (=) (Inr (Block 10 ''0xa'' ''0x9''))
     ([LogAdded 5], Some (Thrown ''Error fetching logs''))
     (run (=) (Subscribe (Inr 6) callback_b token_b)
       (run (=) (Subscribe (Inr 5) callback_a token_a)
       (ContractWrapper 1 (Some (\<lambda>l. Inr (RawLog l))) :: (nat, callback, nat, nat) contract_wrapper))))) =
     [Invocation token_a callback_a None (Some (DecodedLogEvent (RawLog 5) False)),
      Invocation token_a callback_a (Some (Thrown ''Error fetching logs'')) None,
      Invocation token_b callback_b (Some (Thrown ''Error fetching logs'')) None] \<and>
   filters (snd (reconcileBlockAsync (=) (Inr (Block 10 ''0xa'' ''0x9''))
     ([LogAdded 5], Some (Thrown ''Error fetching logs''))
     (run (=) (Subscribe (Inr 6) callback_b token_b)
       (run (=) (Subscribe (Inr 5) callback_a token_a)
       (ContractWrapper 1 (Some (\<lambda>l. Inr (RawLog l))) :: (nat, callback, nat, nat) contract_wrapper))))) = [] \<and>
   \<not> polling (snd (reconcileBlockAsync (=) (Inr (Block 10 ''0xa'' ''0x9''))
     ([LogAdded 5], Some (Thrown ''Error fetching logs''))
     (run (=) (Subscribe (Inr 6) callback_b token_b)
       (run (=) (Subscribe (Inr 5) callback_a token_a)
       (ContractWrapper 1 (Some (\<lambda>l. Inr (RawLog l))) :: (nat, callback, nat, nat) contract_wrapper)))))"
proof -
  let ?dec = "\<lambda>l::nat. Inr (RawLog l) :: error + (nat, nat) decoded_or_raw"
  let ?w0 = "ContractWrapper 1 (Some ?dec) :: (nat, callback, nat, nat) contract_wrapper"
  let ?w1 = "run (=) (Subscribe (Inr 5) callback_a token_a) ?w0"
  let ?w2 = "run (=) (Subscribe (Inr 6) callback_b token_b) ?w1"
  let ?e = "Thrown ''Error fetching logs''"
  let ?b = "Inr (Block 10 ''0xa'' ''0x9'') :: error + block"
  let ?script = "([LogAdded (5::nat)], Some ?e)"
  let ?ev = "Invocation token_a callback_a None
     (Some (DecodedLogEvent (RawLog (5::nat) :: (nat, nat) decoded_or_raw) False))"
  have ga: "generated (Subscribe (Inr 5) callback_a token_a :: (nat, nat) operation)"
    by (simp add: is_uuid_def)
  have gb: "generated (Subscribe (Inr 6) callback_b token_b :: (nat, nat) operation)"
    by (simp add: is_uuid_def)
  have r: "reachable (=) ?w2"
    by (rule reachable_run [OF reachable_run [OF reachable_new ga] gb])
  have c: "filterCallbacks ?w2 = [(token_a, callback_a), (token_b, callback_b)]"
    by (simp add: run_defs)
  have wb: "well_behaved ?w2" using c by (simp add: well_behaved_def quiet_def)
  have t: "tick_failure (=) ?b ?script ?w2 = Some (?e, ?w2\<lparr>invocations := [?ev]\<rparr>)"
    by (simp add: tick_failure_def run_defs)
  note tick = failed_tick_notifies_every_subscriber [OF r wb t]
  from tick have "invocations (snd (reconcileBlockAsync (=) ?b ?script ?w2)) =
      invocations (?w2\<lparr>invocations := [?ev]\<rparr>) @ error_invocations ?e (filterCallbacks ?w2)"
    by (elim conjE)
  with c have told: "invocations (snd (reconcileBlockAsync (=) ?b ?script ?w2)) =
      [?ev, Invocation token_a callback_a (Some ?e) None,
       Invocation token_b callback_b (Some ?e) None]"
    by (simp add: error_invocations_def)
  from tick have gone: "filters (snd (reconcileBlockAsync (=) ?b ?script ?w2)) = []"
    by (elim conjE)
  from tick have off: "\<not> polling (snd (reconcileBlockAsync (=) ?b ?script ?w2))"
    by (elim conjE)
  from r wb t told gone off show ?thesis by (intro conjI)
qed

text \<open>
  C1 as stated fails when a callback does not just return. With the callback of the
  first subscription throwing, a tick whose fetch fails leaves
  \<^verbatim>\<open>_reconcileBlockAsync\<close> with what the callback threw: the second subscriber is never
  called and both subscriptions and the timer stay. With the callback of the first
  subscription calling \<^verbatim>\<open>unsubscribeAll\<close>, the tick ends in the \<^verbatim>\<open>TypeError\<close> of
  \<^verbatim>\<open>_stopBlockAndLogStream\<close>, and the second subscriber is never called either.
\<close>

theorem failed_tick_misbehaving_callback_counterexample:
  "fst (reconcileBlockAsync (=) (Inl (Thrown ''Error fetching block'')) ([], None)
     (run (=) (Subscribe (Inr 6) callback_b token_b)
       (run (=) (Subscribe (Inr 5) throwing_callback token_a)
       (ContractWrapper 1 None :: (nat, callback, nat, nat) contract_wrapper)))) =
     Some (Thrown ''callback failed'') \<and>
   invocations (snd (reconcileBlockAsync (=) (Inl (Thrown ''Error fetching block'')) ([], None)
     (run (=) (Subscribe (Inr 6) callback_b token_b)
       (run (=) (Subscribe (Inr 5) throwing_callback token_a)
       (ContractWrapper 1 None :: (nat, callback, nat, nat) contract_wrapper))))) =
     [Invocation token_a throwing_callback (Some (Thrown ''Error fetching block'')) None] \<and>
   js_keys (filterCallbacks (snd (reconcileBlockAsync (=) (Inl (Thrown ''Error fetching block''))
     ([], None)
     (run (=) (Subscribe (Inr 6) callback_b token_b)
       (run (=) (Subscribe (Inr 5) throwing_callback token_a)
       (ContractWrapper 1 None :: (nat, callback, nat, nat) contract_wrapper)))))) =
     [token_a, token_b] \<and>
   polling (snd (reconcileBlockAsync (=) (Inl (Thrown ''Error fetching block'')) ([], None)
     (run (=) (Subscribe (Inr 6) callback_b token_b)
       (run (=) (Subscribe (Inr 5) throwing_callback token_a)
       (ContractWrapper 1 None :: (nat, callback, nat, nat) contract_wrapper))))) \<and>
   fst (reconcileBlockAsync (=) (Inl (Thrown ''Error fetching block'')) ([], None)
     (run (=) (Subscribe (Inr 6) callback_b token_b)
       (run (=) (Subscribe (Inr 5) leaving_callback token_a)
       (ContractWrapper 1 None :: (nat, callback, nat, nat) contract_wrapper)))) =
     Some TypeError \<and>
   invocations (snd (reconcileBlockAsync (=) (Inl (Thrown ''Error fetching block'')) ([], None)
     (run (=) (Subscribe (Inr 6) callback_b token_b)
       (run (=) (Subscribe (Inr 5) leaving_callback token_a)
       (ContractWrapper 1 None :: (nat, callback, nat, nat) contract_wrapper))))) =
     [Invocation token_a leaving_callback (Some (Thrown ''Error fetching block'')) None]"
  by (simp add: run_defs polling_def)

section \<open>A tick that does not fail\<close>




section \<open>Decoding a matched log\<close>

lemma notify_throws:
  assumes "\<And>removed. onLogStateChanged m removed l w = (Some e, w)"
  shows "notify m subscribers l w = w"
proof (induction subscribers)
  case Nil
  then show ?case by simp
next
  case (Cons subscriber subscribers)
  obtain token removed where "subscriber = (token, removed)" by (cases subscriber)
  with Cons assms [of removed] show ?case by simp
qed

lemma announce_throws:
  assumes "registry_inv w" "matched m w (stream_log ev)"
    "tryToDecodeLogOrNoop w (stream_log ev) = Inl e"
  shows "announce m ev w = w"
proof -
  have "onLogStateChanged m removed (stream_log ev) w = (Some e, w)" for removed
    using assms by (rule onLogStateChanged_throws)
  then have "notify m subscribers (stream_log ev) w = w" for subscribers
    by (rule notify_throws)
  then show ?thesis by (cases ev) (simp_all add: announce_def split: option.splits)
qed

lemma invocations_delete_and_stop [simp]:
  "invocations (snd (delete_and_stop t w)) = invocations w"
  by (simp add: delete_and_stop_def stopBlockAndLogStream_def clearAsyncExcludingInterval_def
      Let_def split: option.splits)

lemma invocations_unsubscribe_without_err [simp]:
  "invocations (snd (unsubscribe_without_err t w)) = invocations w"
  by (simp add: unsubscribe_without_err_def)

lemma invocations_unsubscribe_each_without_err [simp]:
  "invocations (snd (unsubscribe_each_without_err ts w)) = invocations w"
proof (induction ts arbitrary: w)
  case Nil
  then show ?case by simp
next
  case (Cons t ts)
  obtain r w1 where u: "unsubscribe_without_err t w = (r, w1)"
    by (cases "unsubscribe_without_err t w")
  then have "invocations w1 = invocations w"
    using invocations_unsubscribe_without_err [of t w] by simp
  with u Cons.IH [of w1] show ?case by (cases r) simp_all
qed

lemma invocations_perform [simp]: "invocations (snd (perform c w)) = invocations w"
  by (cases c) (simp_all add: unsubscribeAll_def)

lemma invocations_perform_all [simp]:
  "invocations (snd (perform_all cs w)) = invocations w"
proof (induction cs arbitrary: w)
  case Nil
  then show ?case by simp
next
  case (Cons c cs)
  obtain r w1 where p: "perform c w = (r, w1)" by (cases "perform c w")
  then have "invocations w1 = invocations w" using invocations_perform [of c w] by simp
  with p Cons.IH [of w1] show ?case by (cases r) simp_all
qed

lemma invocations_invoke [simp]: "invocations (snd (invoke cb w)) = invocations w"
proof -
  obtain r w1 where p: "perform_all (calls cb) w = (r, w1)"
    by (cases "perform_all (calls cb) w")
  then have "invocations w1 = invocations w"
    using invocations_perform_all [of "calls cb" w] by simp
  with p show ?thesis by (cases r) (simp_all add: invoke_def)
qed

lemma dispatch_appends:
  "\<exists>ivs. invocations (snd (dispatch m r l ks w)) = invocations w @ ivs"
proof (induction ks arbitrary: w)
  case Nil
  then show ?case by simp
next
  case (Cons k ks)
  show ?case
  proof (cases "js_get (filters w) k")
    case (Own f)
    show ?thesis
    proof (cases "m l f")
      case True
      show ?thesis
      proof (cases "tryToDecodeLogOrNoop w l")
        case (Inl e)
        with Own True show ?thesis by simp
      next
        case (Inr d)
        show ?thesis
        proof (cases "js_get (filterCallbacks w) k")
          case (Own cb)
          let ?w0 = "w\<lparr>invocations := invocations w @
              [Invocation k cb None (Some (DecodedLogEvent d r))]\<rparr>"
          obtain res w1 where i: "invoke cb ?w0 = (res, w1)" by (cases "invoke cb ?w0")
          then have w1: "invocations w1 = invocations w @
              [Invocation k cb None (Some (DecodedLogEvent d r))]"
            using invocations_invoke [of cb ?w0] by simp
          show ?thesis
          proof (cases res)
            case None
            from Cons.IH [of w1] obtain ivs where
              "invocations (snd (dispatch m r l ks w1)) = invocations w1 @ ivs" by blast
            with None i w1 \<open>js_get (filters w) k = Own f\<close> True Inr Own show ?thesis by simp
          next
            case (Some thrown)
            with i w1 \<open>js_get (filters w) k = Own f\<close> True Inr Own show ?thesis by simp
          qed
        next
          case Inherited
          with \<open>js_get (filters w) k = Own f\<close> True Inr Cons.IH [of w] show ?thesis
            by (cases "inherited_call True k") simp_all
        next
          case Undefined
          with \<open>js_get (filters w) k = Own f\<close> True Inr show ?thesis by simp
        qed
      qed
    next
      case False
      with Own Cons.IH [of w] show ?thesis by simp
    qed
  next
    case Inherited
    with Cons.IH [of w] show ?thesis by simp
  next
    case Undefined
    with Cons.IH [of w] show ?thesis by simp
  qed
qed

lemma dispatch_first:
  assumes "find (\<lambda>(t, f). m l f) fs = Some (t, f)"
    and "\<forall>(k, g) \<in> set fs. js_get (filters w) k = Own g"
    and "tryToDecodeLogOrNoop w l = Inr d"
    and "js_get (filterCallbacks w) t = Own cb"
  shows "\<exists>ivs. invocations (snd (dispatch m r l (map fst fs) w)) =
     invocations w @ Invocation t cb None (Some (DecodedLogEvent d r)) # ivs"
  using assms(1,2)
proof (induction fs)
  case Nil
  then show ?case by simp
next
  case (Cons a fs)
  obtain k g where a: "a = (k, g)" by (cases a)
  with Cons.prems(2) have own: "js_get (filters w) k = Own g" by simp
  show ?case
  proof (cases "m l g")
    case True
    with Cons.prems(1) a have kt: "k = t" "g = f" by simp_all
    let ?w0 = "w\<lparr>invocations := invocations w @
        [Invocation t cb None (Some (DecodedLogEvent d r))]\<rparr>"
    obtain res w1 where i: "invoke cb ?w0 = (res, w1)" by (cases "invoke cb ?w0")
    then have w1: "invocations w1 = invocations w @
        [Invocation t cb None (Some (DecodedLogEvent d r))]"
      using invocations_invoke [of cb ?w0] by simp
    show ?thesis
    proof (cases res)
      case None
      from dispatch_appends [of m r l "map fst fs" w1] obtain ivs where
        "invocations (snd (dispatch m r l (map fst fs) w1)) = invocations w1 @ ivs" by blast
      with None i w1 own True kt a assms(3,4) show ?thesis by simp
    next
      case (Some thrown)
      with i w1 own True kt a assms(3,4) show ?thesis by simp
    qed
  next
    case False
    with Cons.prems a have "find (\<lambda>(t, f). m l f) fs = Some (t, f)"
      "\<forall>(k, g) \<in> set fs. js_get (filters w) k = Own g" by simp_all
    from Cons.IH [OF this] False own a show ?thesis by simp
  qed
qed

lemma find_member: "find P xs = Some x \<Longrightarrow> x \<in> set xs"
  by (induction xs) (auto split: if_splits)

lemma onLogStateChanged_first:
  assumes "registry_inv w" "find (\<lambda>(t, f). m l f) (filters w) = Some (t, f)"
    "tryToDecodeLogOrNoop w l = Inr d"
  shows "\<exists>cb ivs. map_of (filterCallbacks w) t = Some cb \<and>
     invocations (snd (onLogStateChanged m r l w)) =
       invocations w @ Invocation t cb None (Some (DecodedLogEvent d r)) # ivs"
proof -
  from assms(2) have tf: "(t, f) \<in> set (filters w)" by (rule find_member)
  with own_callbacks [OF assms(1)] obtain cb where cb: "js_get (filterCallbacks w) t = Own cb"
    by force
  then have mo: "map_of (filterCallbacks w) t = Some cb"
    by (auto simp: js_get_def split: option.splits if_splits)
  have "\<forall>(k, g) \<in> set (filters w). js_get (filters w) k = Own g"
    using own_filter [OF inv_distinct [OF assms(1)]] by auto
  from dispatch_first [of m l "filters w" t f w d cb r, OF assms(2) this assms(3) cb] mo
  show ?thesis
    by (auto simp: onLogStateChanged_def js_keys_def)
qed

text \<open>
  C3, as amended. For a log that matches a registered filter, on a wrapper in a
  reachable state: when \<^verbatim>\<open>_tryToDecodeLogOrNoop\<close> returns (the decoded log, or the raw
  log that the decoder hands back when it cannot decode it), the callback of the first
  matching filter is called with what it returned and the flag, whatever the callbacks
  do, and when the callbacks return normally without calling back into the wrapper
  every matching filter's callback is, and nothing else is called; when it throws,
  \<^verbatim>\<open>_onLogStateChanged\<close> throws the same error and calls no callback, neither that of
  the first matching filter nor those of the other filters. Without decoder it throws
  \<^verbatim>\<open>NoAbiDecoder\<close>; with a decoder it does what the decoder does. In no case does the
  decode step abort the tick: the announcement of a log whose decode throws leaves the
  wrapper as it was, the tick goes on with the other logs exactly as if the log had not
  been announced, and it fails only if the reconciliation rejects.
\<close>

theorem decoder_result_is_delivered:
  assumes "reachable m w" "matched m w l"
  shows "(\<forall>decodedLog filterToken flt.
            tryToDecodeLogOrNoop w l = Inr decodedLog \<and>
            find (\<lambda>(filterToken, flt). m l flt) (filters w) = Some (filterToken, flt) \<longrightarrow>
            (\<exists>callback ivs. map_of (filterCallbacks w) filterToken = Some callback \<and>
               invocations (snd (onLogStateChanged m removed l w)) =
                 invocations w @
                 Invocation filterToken callback None
                   (Some (DecodedLogEvent decodedLog removed)) # ivs)) \<and>
         (\<forall>decodedLog. tryToDecodeLogOrNoop w l = Inr decodedLog \<and> well_behaved w \<longrightarrow>
            onLogStateChanged m removed l w =
              (None, w\<lparr>invocations := invocations w @
                 matching_invocations (filterCallbacks w) decodedLog removed
                   (filter (\<lambda>(filterToken, flt). m l flt) (filters w))\<rparr>) \<and>
            (\<forall>(filterToken, flt) \<in> set (filters w). m l flt \<longrightarrow>
               (\<exists>callback. map_of (filterCallbacks w) filterToken = Some callback \<and>
                  Invocation filterToken callback None (Some (DecodedLogEvent decodedLog removed))
                  \<in> set (invocations (snd (onLogStateChanged m removed l w)))))) \<and>
         (\<forall>e. tryToDecodeLogOrNoop w l = Inl e \<longrightarrow> onLogStateChanged m removed l w = (Some e, w)) \<and>
         (abiDecoder w = None \<longrightarrow> tryToDecodeLogOrNoop w l = Inl NoAbiDecoder) \<and>
         (\<forall>decoder. abiDecoder w = Some decoder \<longrightarrow> tryToDecodeLogOrNoop w l = decoder l) \<and>
         (\<forall>e ev. tryToDecodeLogOrNoop w l = Inl e \<and> stream_log ev = l \<longrightarrow>
            announce m ev w = w \<and>
            (\<forall>latestBlock evs outcome.
               reconcileBlockAsync m latestBlock (ev # evs, outcome) w =
                 reconcileBlockAsync m latestBlock (evs, outcome) w \<and>
               tick_failure m latestBlock (ev # evs, outcome) w =
                 tick_failure m latestBlock (evs, outcome) w) \<and>
            (\<forall>b evs. tick_failure m (Inr b) (ev # evs, None) w = None))"
proof -
  from assms(1) have inv: "registry_inv w" by (rule reachable_inv)
  have first: "\<exists>callback ivs. map_of (filterCallbacks w) t = Some callback \<and>
               invocations (snd (onLogStateChanged m removed l w)) =
                 invocations w @
                 Invocation t callback None (Some (DecodedLogEvent d removed)) # ivs"
    if "tryToDecodeLogOrNoop w l = Inr d"
      "find (\<lambda>(filterToken, flt). m l flt) (filters w) = Some (t, f)" for d t f
    using inv that(2,1) by (rule onLogStateChanged_first)
  have ok: "onLogStateChanged m removed l w =
              (None, w\<lparr>invocations := invocations w @
                 matching_invocations (filterCallbacks w) d removed
                   (filter (\<lambda>(filterToken, flt). m l flt) (filters w))\<rparr>)"
    if "tryToDecodeLogOrNoop w l = Inr d" "well_behaved w" for d
    using onLogStateChanged_result [OF inv that(2), of m l removed] that(1)
    by (simp add: log_invocations_def)
  have told: "\<exists>callback. map_of (filterCallbacks w) t = Some callback \<and>
                  Invocation t callback None (Some (DecodedLogEvent d removed))
                  \<in> set (invocations (snd (onLogStateChanged m removed l w)))"
    if d: "tryToDecodeLogOrNoop w l = Inr d" and wb: "well_behaved w"
      and tf: "(t, f) \<in> set (filters w)" and mt: "m l f"
    for d t f
  proof -
    from own_callbacks [OF inv] tf obtain cb where cb: "js_get (filterCallbacks w) t = Own cb"
      by force
    then have mo: "map_of (filterCallbacks w) t = Some cb"
      by (auto simp: js_get_def split: option.splits if_splits)
    from tf mt have "(t, f) \<in> set (filter (\<lambda>(t, f). m l f) (filters w))" by simp
    from matching_member [OF this cb, of d removed] ok [OF d wb] mo show ?thesis by simp
  qed
  have bad: "onLogStateChanged m removed l w = (Some e, w)" if "tryToDecodeLogOrNoop w l = Inl e" for e
    using inv assms(2) that by (rule onLogStateChanged_throws)
  have dec: "abiDecoder w = None \<longrightarrow> tryToDecodeLogOrNoop w l = Inl NoAbiDecoder"
    "\<forall>decoder. abiDecoder w = Some decoder \<longrightarrow> tryToDecodeLogOrNoop w l = decoder l"
    by (simp_all add: tryToDecodeLogOrNoop_def)
  have skip: "announce m ev w = w"
    if "tryToDecodeLogOrNoop w l = Inl e" "stream_log ev = l" for e ev
    using announce_throws [OF inv, of m ev e] assms(2) that by simp
  have same: "reconcileBlockAsync m latestBlock (ev # evs, outcome) w =
                 reconcileBlockAsync m latestBlock (evs, outcome) w"
    "tick_failure m latestBlock (ev # evs, outcome) w =
                 tick_failure m latestBlock (evs, outcome) w"
    if "tryToDecodeLogOrNoop w l = Inl e" "stream_log ev = l" for e ev latestBlock evs outcome
  proof -
    from skip [OF that]
    have "reconcileNewBlock m (ev # evs, outcome) w = reconcileNewBlock m (evs, outcome) w"
      by (simp add: reconcileNewBlock_def)
    then show "reconcileBlockAsync m latestBlock (ev # evs, outcome) w =
                 reconcileBlockAsync m latestBlock (evs, outcome) w"
      "tick_failure m latestBlock (ev # evs, outcome) w =
                 tick_failure m latestBlock (evs, outcome) w"
      by (simp_all only: reconcileBlockAsync_def tick_failure_def)
  qed
  have alive: "tick_failure m (Inr b) (evs, None) w = None" for b evs
    by (simp add: tick_failure_def reconcileNewBlock_def split: option.splits)
  have part1: "\<forall>decodedLog filterToken flt.
            tryToDecodeLogOrNoop w l = Inr decodedLog \<and>
            find (\<lambda>(filterToken, flt). m l flt) (filters w) = Some (filterToken, flt) \<longrightarrow>
            (\<exists>callback ivs. map_of (filterCallbacks w) filterToken = Some callback \<and>
               invocations (snd (onLogStateChanged m removed l w)) =
                 invocations w @
                 Invocation filterToken callback None
                   (Some (DecodedLogEvent decodedLog removed)) # ivs)"
    using first by blast
  have part2: "\<forall>decodedLog. tryToDecodeLogOrNoop w l = Inr decodedLog \<and> well_behaved w \<longrightarrow>
            onLogStateChanged m removed l w =
              (None, w\<lparr>invocations := invocations w @
                 matching_invocations (filterCallbacks w) decodedLog removed
                   (filter (\<lambda>(filterToken, flt). m l flt) (filters w))\<rparr>) \<and>
            (\<forall>(filterToken, flt) \<in> set (filters w). m l flt \<longrightarrow>
               (\<exists>callback. map_of (filterCallbacks w) filterToken = Some callback \<and>
                  Invocation filterToken callback None (Some (DecodedLogEvent decodedLog removed))
                  \<in> set (invocations (snd (onLogStateChanged m removed l w)))))"
    using ok told by blast
  have part5: "\<forall>e ev. tryToDecodeLogOrNoop w l = Inl e \<and> stream_log ev = l \<longrightarrow>
            announce m ev w = w \<and>
            (\<forall>latestBlock evs outcome.
               reconcileBlockAsync m latestBlock (ev # evs, outcome) w =
                 reconcileBlockAsync m latestBlock (evs, outcome) w \<and>
               tick_failure m latestBlock (ev # evs, outcome) w =
                 tick_failure m latestBlock (evs, outcome) w) \<and>
            (\<forall>b evs. tick_failure m (Inr b) (ev # evs, None) w = None)"
    using skip same alive by blast
  from part1 part2 bad dec part5 show ?thesis by (intro conjI) blast+
qed

theorem decoder_result_is_delivered_witness:
  "reachable (=) (run (=) (Subscribe (Inr 5) callback_a token_a)
       (ContractWrapper 1 (Some (\<lambda>l. Inr (RawLog l))) :: (nat, callback, nat, nat) contract_wrapper)) \<and>
   matched (=) (run (=) (Subscribe (Inr 5) callback_a token_a)
       (ContractWrapper 1 (Some (\<lambda>l. Inr (RawLog l))) :: (nat, callback, nat, nat) contract_wrapper)) 5 \<and>
   well_behaved (run (=) (Subscribe (Inr 5) callback_a token_a)
       (ContractWrapper 1 (Some (\<lambda>l. Inr (RawLog l))) :: (nat, callback, nat, nat) contract_wrapper)) \<and>
   tryToDecodeLogOrNoop (run (=) (Subscribe (Inr 5) callback_a token_a)
       (ContractWrapper 1 (Some (\<lambda>l. Inr (RawLog l))) :: (nat, callback, nat, nat) contract_wrapper)) 5 =
     Inr (RawLog 5) \<and>
   fst (onLogStateChanged (=) True 5 (run (=) (Subscribe (Inr 5) callback_a token_a)
       (ContractWrapper 1 (Some (\<lambda>l. Inr (RawLog l))) :: (nat, callback, nat, nat) contract_wrapper))) = None \<and>
   invocations (snd (onLogStateChanged (=) True 5 (run (=) (Subscribe (Inr 5) callback_a token_a)
       (ContractWrapper 1 (Some (\<lambda>l. Inr (RawLog l))) :: (nat, callback, nat, nat) contract_wrapper)))) =
     [Invocation token_a callback_a None (Some (DecodedLogEvent (RawLog 5) True))] \<and>
   reachable (=) (run (=) (Subscribe (Inr 5) callback_a token_a)
       (ContractWrapper 1 None :: (nat, callback, nat, nat) contract_wrapper)) \<and>
   matched (=) (run (=) (Subscribe (Inr 5) callback_a token_a)
       (ContractWrapper 1 None :: (nat, callback, nat, nat) contract_wrapper)) 5 \<and>
   tryToDecodeLogOrNoop (run (=) (Subscribe (Inr 5) callback_a token_a)
       (ContractWrapper 1 None :: (nat, callback, nat, nat) contract_wrapper)) 5 =
     Inl NoAbiDecoder \<and>
   tick_failure (=) (Inr (Block 10 ''0xa'' ''0x9'')) ([LogAdded 5], None)
     (run (=) (Subscribe (Inr 5) callback_a token_a)
       (ContractWrapper 1 None :: (nat, callback, nat, nat) contract_wrapper)) = None \<and>
   reconcileBlockAsync (=) (Inr (Block 10 ''0xa'' ''0x9'')) ([LogAdded 5], None)
     (run (=) (Subscribe (Inr 5) callback_a token_a)
       (ContractWrapper 1 None :: (nat, callback, nat, nat) contract_wrapper)) =
     (None, run (=) (Subscribe (Inr 5) callback_a token_a)
       (ContractWrapper 1 None :: (nat, callback, nat, nat) contract_wrapper))"
proof -
  let ?dec = "\<lambda>l::nat. Inr (RawLog l) :: error + (nat, nat) decoded_or_raw"
  let ?w0 = "ContractWrapper 1 (Some ?dec) :: (nat, callback, nat, nat) contract_wrapper"
  let ?w1 = "run (=) (Subscribe (Inr 5) callback_a token_a) ?w0"
  let ?v0 = "ContractWrapper 1 None :: (nat, callback, nat, nat) contract_wrapper"
  let ?v1 = "run (=) (Subscribe (Inr 5) callback_a token_a) ?v0"
  let ?b = "Block 10 ''0xa'' ''0x9''"
  have ga: "generated (Subscribe (Inr 5) callback_a token_a :: (nat, nat) operation)"
    by (simp add: is_uuid_def)
  have r: "reachable (=) ?w1" by (rule reachable_run [OF reachable_new ga])
  have f: "filters ?w1 = [(token_a, 5)]" by (simp add: run_defs)
  have c: "filterCallbacks ?w1 = [(token_a, callback_a)]" by (simp add: run_defs)
  have i: "invocations ?w1 = []" by (simp add: run_defs)
  have m: "matched (=) ?w1 5" using f by (simp add: matched_def)
  have wb: "well_behaved ?w1" using c by (simp add: well_behaved_def quiet_def)
  have d: "tryToDecodeLogOrNoop ?w1 5 = Inr (RawLog 5)" by (simp add: run_defs)
  from decoder_result_is_delivered [OF r m, of True] d wb
  have "onLogStateChanged (=) True 5 ?w1 =
      (None, ?w1\<lparr>invocations := invocations ?w1 @
          matching_invocations (filterCallbacks ?w1) (RawLog 5) True
            (filter (\<lambda>(filterToken, flt). 5 = flt) (filters ?w1))\<rparr>)"
    by blast
  with f c i have o: "fst (onLogStateChanged (=) True 5 ?w1) = None"
    "invocations (snd (onLogStateChanged (=) True 5 ?w1)) =
       [Invocation token_a callback_a None (Some (DecodedLogEvent (RawLog 5) True))]"
    by (simp_all add: matching_invocations_def js_get_def)
  have r': "reachable (=) ?v1" by (rule reachable_run [OF reachable_new ga])
  have f': "filters ?v1 = [(token_a, 5)]" by (simp add: run_defs)
  have m': "matched (=) ?v1 5" using f' by (simp add: matched_def)
  have d': "tryToDecodeLogOrNoop ?v1 5 = Inl NoAbiDecoder" by (simp add: run_defs)
  have s': "stream_log (LogAdded (5::nat)) = 5" by simp
  from decoder_result_is_delivered [OF r' m', of True] d' s'
  have t': "tick_failure (=) (Inr ?b) ([LogAdded 5], None) ?v1 = None"
    and "reconcileBlockAsync (=) (Inr ?b) ([LogAdded 5], None) ?v1 =
      reconcileBlockAsync (=) (Inr ?b) ([], None) ?v1"
    by blast+
  moreover have "reconcileBlockAsync (=) (Inr ?b) ([], None) ?v1 = (None, ?v1)"
    by (simp add: reconcileBlockAsync_def reconcileNewBlock_def split: option.splits)
  ultimately have e': "reconcileBlockAsync (=) (Inr ?b) ([LogAdded 5], None) ?v1 = (None, ?v1)"
    by simp
  from r m wb d o r' m' d' t' e' show ?thesis by (intro conjI)
qed

text \<open>
  C3 as stated fails: on a wrapper without decoder and with two subscriptions whose
  filters both match the log, \<^verbatim>\<open>_onLogStateChanged\<close> throws \<^verbatim>\<open>NoAbiDecoder\<close> and neither
  subscriber receives anything, the undecoded record included; the tick that announces
  the log does not fail and calls no callback.
\<close>

theorem no_decoder_aborts_dispatch_counterexample:
  "abiDecoder (run (=) (Subscribe (Inr 5) callback_b token_b)
     (run (=) (Subscribe (Inr 5) callback_a token_a)
       (ContractWrapper 1 None :: (nat, callback, nat, nat) contract_wrapper))) = None \<and>
   filters (run (=) (Subscribe (Inr 5) callback_b token_b)
     (run (=) (Subscribe (Inr 5) callback_a token_a)
       (ContractWrapper 1 None :: (nat, callback, nat, nat) contract_wrapper))) =
     [(token_a, 5), (token_b, 5)] \<and>
   fst (onLogStateChanged (=) False 5
     (run (=) (Subscribe (Inr 5) callback_b token_b)
     (run (=) (Subscribe (Inr 5) callback_a token_a)
       (ContractWrapper 1 None :: (nat, callback, nat, nat) contract_wrapper)))) = Some NoAbiDecoder \<and>
   invocations (snd (onLogStateChanged (=) False 5
     (run (=) (Subscribe (Inr 5) callback_b token_b)
     (run (=) (Subscribe (Inr 5) callback_a token_a)
       (ContractWrapper 1 None :: (nat, callback, nat, nat) contract_wrapper))))) = [] \<and>
   tick_failure (=) (Inr (Block 10 ''0xa'' ''0x9'')) ([LogAdded 5], None)
     (run (=) (Subscribe (Inr 5) callback_b token_b)
     (run (=) (Subscribe (Inr 5) callback_a token_a)
       (ContractWrapper 1 None :: (nat, callback, nat, nat) contract_wrapper))) = None \<and>
   invocations (snd (reconcileBlockAsync (=) (Inr (Block 10 ''0xa'' ''0x9'')) ([LogAdded 5], None)
     (run (=) (Subscribe (Inr 5) callback_b token_b)
     (run (=) (Subscribe (Inr 5) callback_a token_a)
       (ContractWrapper 1 None :: (nat, callback, nat, nat) contract_wrapper))))) = []"
  by (simp add: run_defs tick_failure_def)

section \<open>The request queue is bounded\<close>

text \<open>
  C10. A queue of at least 500 entries refuses the address and stays as it is; a
  shorter queue appends the address at the tail and accepts; so a queue of at most 500
  entries has at most 500 entries after \<^verbatim>\<open>add\<close>.
\<close>

theorem add_capacity_bound:
  "(size_queue q \<ge> 500 \<longrightarrow> add a q = (False, q)) \<and>
   (size_queue q < 500 \<longrightarrow>
      add a q = (True, q\<lparr>queue := queue q @ [a]\<rparr>) \<and>
      size_queue (snd (add a q)) = Suc (size_queue q)) \<and>
   (size_queue q \<le> 500 \<longrightarrow> size_queue (snd (add a q)) \<le> 500)"
  by (simp add: add_def isFull_def size_queue_def MAX_QUEUE_SIZE_def)

theorem add_capacity_bound_witness:
  "size_queue \<lparr>queueIntervalMs = 1000, queue = replicate 500 ''0xab''\<rparr> \<ge> 500 \<and>
   add ''0xcd'' \<lparr>queueIntervalMs = 1000, queue = replicate 500 ''0xab''\<rparr> =
     (False, \<lparr>queueIntervalMs = 1000, queue = replicate 500 ''0xab''\<rparr>) \<and>
   size_queue RequestQueue < 500 \<and>
   add ''0xcd'' RequestQueue = (True, \<lparr>queueIntervalMs = 1000, queue = [''0xcd'']\<rparr>) \<and>
   size_queue (snd (add ''0xcd'' RequestQueue)) \<le> 500"
  using add_capacity_bound [of "\<lparr>queueIntervalMs = 1000, queue = replicate 500 ''0xab''\<rparr>" "''0xcd''"]
    add_capacity_bound [of RequestQueue "''0xcd''"]
  by (simp add: size_queue_def RequestQueue_def DEFAULT_QUEUE_INTERVAL_MS_def)


end
